theory Spec2Isabelle
  imports Main
begin

section \<open>Errors and characters\<close>

text \<open>
  The rule functions of \<^verbatim>\<open>list.cpp\<close> build \<^verbatim>\<open>std::regex\<close> objects, whose constructor throws
  \<^verbatim>\<open>std::regex_error\<close> on an ill-formed pattern, and call \<^verbatim>\<open>std::string::substr\<close>, which throws
  \<^verbatim>\<open>std::out_of_range\<close>. Both are values here. \<open>unsupported\<close> is not a behaviour of the
  program: it marks the few patterns on which \<^verbatim>\<open>std::regex\<close> is not interpreted, because what
  the library does there depends on its locale tables, its version or the platform:
  a collating symbol \<^verbatim>\<open>[.x.]\<close> or an equivalence class \<^verbatim>\<open>[=x=]\<close> in a bracket expression, a
  dash directly after a class in a bracket expression, a range with an end beyond ASCII,
  a back-reference in a pattern that repeats a capture group, and \<^verbatim>\<open>^\<close>, \<^verbatim>\<open>\b\<close> or \<^verbatim>\<open>\B\<close>
  inside a look-ahead; and the one case of \<^verbatim>\<open>regex_replace\<close> that the program cannot reach, a
  match of the empty string.
  Nothing is stated about the program where the model answers \<open>unsupported\<close>. The limits
  that the library puts on the size of a pattern and on the depth of a match are not
  part of the model.
\<close>

datatype error = regex_error | out_of_range | unsupported

definition backslash :: char where
  "backslash = CHR 0x5C"

text \<open>The character classes of the "C" locale.\<close>

definition isspace :: "char \<Rightarrow> bool" where
  \<comment> \<open>the space class of the "C" locale: space, \<^verbatim>\<open>\t \n \v \f \r\<close>\<close>
  "isspace c = (c \<in> set [CHR 0x20, CHR 0x09, CHR 0x0A, CHR 0x0B, CHR 0x0C, CHR 0x0D])"

definition isdigit :: "char \<Rightarrow> bool" where
  "isdigit c = (c \<in> set ''0123456789'')"

definition isword :: "char \<Rightarrow> bool" where
  "isword c = (c \<in> set ''abcdefghijklmnopqrstuvwxyzABCDEFGHIJKLMNOPQRSTUVWXYZ0123456789_'')"

definition ispunct :: "char \<Rightarrow> bool" where
  \<comment> \<open>the printable ASCII characters that are neither alphanumeric nor the space\<close>
  "ispunct c = (c \<in> set ''!#$%&()*+,-./:;<=>?@[]^_{|}~''
                \<or> c \<in> set [CHR 0x22, CHR 0x27, CHR 0x5C, CHR 0x60])"

definition isupper :: "char \<Rightarrow> bool" where
  "isupper c = (c \<in> set ''ABCDEFGHIJKLMNOPQRSTUVWXYZ'')"

definition islower :: "char \<Rightarrow> bool" where
  "islower c = (c \<in> set ''abcdefghijklmnopqrstuvwxyz'')"

definition isalpha :: "char \<Rightarrow> bool" where
  "isalpha c = (isupper c \<or> islower c)"

definition isalnum :: "char \<Rightarrow> bool" where
  "isalnum c = (isalpha c \<or> isdigit c)"

definition isxdigit :: "char \<Rightarrow> bool" where
  "isxdigit c = (c \<in> set ''0123456789abcdefABCDEF'')"

definition isblank :: "char \<Rightarrow> bool" where
  "isblank c = (c = CHR 0x20 \<or> c = CHR 0x09)"

definition iscntrl :: "char \<Rightarrow> bool" where
  "iscntrl c = ((of_char c :: nat) < 32 \<or> c = CHR 0x7F)"

definition isprint :: "char \<Rightarrow> bool" where
  "isprint c = (32 \<le> (of_char c :: nat) \<and> (of_char c :: nat) < 127)"

definition isgraph :: "char \<Rightarrow> bool" where
  "isgraph c = (32 < (of_char c :: nat) \<and> (of_char c :: nat) < 127)"

definition tolower :: "char \<Rightarrow> char" where
  "tolower c = (if isupper c then char_of ((of_char c :: nat) + 32) else c)"

text \<open>The value of a decimal digit, of a hexadecimal digit, and of a run of decimal digits.\<close>

definition digit_value :: "char \<Rightarrow> nat" where
  "digit_value c = of_char c - of_char (CHR ''0'')"

definition hex_value :: "char \<Rightarrow> nat" where
  "hex_value c =
     (if isdigit c then digit_value c
      else if islower c then of_char c - of_char (CHR ''a'') + 10
      else of_char c - of_char (CHR ''A'') + 10)"

definition nat_of_digits :: "string \<Rightarrow> nat" where
  "nat_of_digits ds = foldl (\<lambda>n d. 10 * n + digit_value d) 0 ds"

section \<open>std::string operations\<close>

text \<open>\<^verbatim>\<open>s.find(t)\<close>: the least index at which \<open>t\<close> occurs in \<open>s\<close>; \<open>None\<close> is \<^verbatim>\<open>npos\<close>.\<close>

fun string_find :: "string \<Rightarrow> string \<Rightarrow> nat option" where
  "string_find [] t = (if t = [] then Some 0 else None)"
| "string_find (c # cs) t =
     (if take (length t) (c # cs) = t then Some 0
      else map_option Suc (string_find cs t))"

text \<open>\<^verbatim>\<open>s.find(ch)\<close> for a single character.\<close>

fun find_char :: "string \<Rightarrow> char \<Rightarrow> nat option" where
  "find_char [] ch = None"
| "find_char (c # cs) ch = (if c = ch then Some 0 else map_option Suc (find_char cs ch))"

text \<open>
  \<^verbatim>\<open>s.substr(pos, count)\<close>: throws when \<open>pos\<close> is beyond the size; a count of \<^verbatim>\<open>npos\<close>
  (or one reaching beyond the end) takes everything up to the end.
\<close>

definition substr :: "string \<Rightarrow> nat \<Rightarrow> nat option \<Rightarrow> error + string" where
  "substr s pos count =
     (if length s < pos then Inl out_of_range
      else case count of
             None \<Rightarrow> Inr (drop pos s)
           | Some n \<Rightarrow> Inr (take n (drop pos s)))"

section \<open>std::regex: patterns\<close>

text \<open>
  The model follows the ECMAScript grammar as the GNU C++ library reads it (the scanner
  and the compiler of \<^verbatim>\<open>bits/regex_scanner.tcc\<close> and \<^verbatim>\<open>bits/regex_compiler.tcc\<close>), for the
  \<^verbatim>\<open>char\<close> type, the "C" locale and the default flags.
\<close>

text \<open>
  Items of a bracket expression: characters, ranges, the class escapes
  \<^verbatim>\<open>\s \d \w \S \D \W\<close> and the named classes \<^verbatim>\<open>[:alpha:]\<close> and so on.
\<close>

datatype cclass =
    Alnum | Alpha | Blank | Cntrl | Graph | Lower | Print | Punct | Upper | Xdigit

fun cclass_matches :: "cclass \<Rightarrow> char \<Rightarrow> bool" where
  "cclass_matches Alnum c = isalnum c"
| "cclass_matches Alpha c = isalpha c"
| "cclass_matches Blank c = isblank c"
| "cclass_matches Cntrl c = iscntrl c"
| "cclass_matches Graph c = isgraph c"
| "cclass_matches Lower c = islower c"
| "cclass_matches Print c = isprint c"
| "cclass_matches Punct c = ispunct c"
| "cclass_matches Upper c = isupper c"
| "cclass_matches Xdigit c = isxdigit c"

datatype citem =
    CI_char char
  | CI_range char char
  | CI_space | CI_digit | CI_word
  | CI_nspace | CI_ndigit | CI_nword
  | CI_class cclass

fun citem_matches :: "citem \<Rightarrow> char \<Rightarrow> bool" where
  "citem_matches (CI_char d) c = (c = d)"
| "citem_matches (CI_range lo hi) c =
     ((of_char lo :: nat) \<le> of_char c \<and> (of_char c :: nat) \<le> of_char hi)"
| "citem_matches CI_space c = isspace c"
| "citem_matches CI_digit c = isdigit c"
| "citem_matches CI_word c = isword c"
| "citem_matches CI_nspace c = (\<not> isspace c)"
| "citem_matches CI_ndigit c = (\<not> isdigit c)"
| "citem_matches CI_nword c = (\<not> isword c)"
| "citem_matches (CI_class k) c = cclass_matches k c"

definition class_matches :: "bool \<Rightarrow> citem list \<Rightarrow> char \<Rightarrow> bool" where
  "class_matches negated items c = (list_ex (\<lambda>i. citem_matches i c) items \<noteq> negated)"

text \<open>
  Patterns. \<open>StarL\<close>, \<open>PlusL\<close> and \<open>OptL\<close> are the lazy quantifiers \<^verbatim>\<open>*? +? ??\<close>; \<open>Look\<close> is a
  look-ahead (negative when the flag is set), \<open>WordB\<close> a word boundary (\<^verbatim>\<open>\B\<close> when the
  flag is set) and \<open>Back\<close> a back-reference. A counted quantifier \<^verbatim>\<open>{n,m}\<close> is unfolded
  into copies by the parser, as the library's compiler does.
\<close>

datatype regex =
    Eps
  | Chr char
  | Any
  | Cls bool "citem list"
  | Bol
  | Eol
  | Seq regex regex
  | Alt regex regex
  | Star regex
  | Plus regex
  | Opt regex
  | Grp nat regex
  | StarL regex
  | PlusL regex
  | OptL regex
  | Look bool regex
  | WordB bool
  | Back nat

subsection \<open>Scanner\<close>

datatype quant = QStar | QPlus | QOpt | QRep nat "nat option"

datatype token =
    TChar char
  | TAny
  | TClass bool "citem list"
  | TBol
  | TEol
  | TOpen
  | TOpenNC
  | TClose
  | TBar
  | TQuant quant
  | TOpenLook bool
  | TWordB bool
  | TBackref nat

text \<open>
  The text after a backslash (\<^verbatim>\<open>_M_eat_escape_ecma\<close>): \<^verbatim>\<open>\0 \f \n \r \t \v\<close> are control
  characters; \<^verbatim>\<open>\b\<close> is a word boundary, and the backspace inside a bracket expression;
  \<^verbatim>\<open>\B\<close> is the negated word boundary; \<^verbatim>\<open>\d \D \s \S \w \W\<close> are classes; \<^verbatim>\<open>\c\<close> takes the
  next character as it is; \<^verbatim>\<open>\x\<close> and \<^verbatim>\<open>\u\<close> take two and four hexadecimal digits; a
  run of digits is a back-reference; any other character stands for itself. A
  backslash at the end of the pattern is ill-formed.
\<close>

datatype escaped = EChar char | EClass citem | EWordB bool | EBackref nat

fun scan_hex :: "nat \<Rightarrow> string \<Rightarrow> (nat \<times> string) option" where
  "scan_hex 0 cs = Some (0, cs)"
| "scan_hex (Suc n) [] = None"
| "scan_hex (Suc n) (c # cs) =
     (if isxdigit c then
        (case scan_hex n cs of
           None \<Rightarrow> None
         | Some (v, rest) \<Rightarrow> Some (hex_value c * 16 ^ n + v, rest))
      else None)"

definition eat_escape :: "bool \<Rightarrow> string \<Rightarrow> error + (escaped \<times> string)" where
  "eat_escape in_bracket cs =
     (case cs of
        [] \<Rightarrow> Inl regex_error
      | e # cs' \<Rightarrow>
          if e = CHR ''0'' then Inr (EChar (CHR 0x00), cs')
          else if e = CHR ''b'' then
            Inr (if in_bracket then EChar (CHR 0x08) else EWordB False, cs')
          else if e = CHR ''f'' then Inr (EChar (CHR 0x0C), cs')
          else if e = CHR ''n'' then Inr (EChar (CHR 0x0A), cs')
          else if e = CHR ''r'' then Inr (EChar (CHR 0x0D), cs')
          else if e = CHR ''t'' then Inr (EChar (CHR 0x09), cs')
          else if e = CHR ''v'' then Inr (EChar (CHR 0x0B), cs')
          else if e = CHR ''B'' then Inr (EWordB True, cs')
          else if e = CHR ''d'' then Inr (EClass CI_digit, cs')
          else if e = CHR ''D'' then Inr (EClass CI_ndigit, cs')
          else if e = CHR ''s'' then Inr (EClass CI_space, cs')
          else if e = CHR ''S'' then Inr (EClass CI_nspace, cs')
          else if e = CHR ''w'' then Inr (EClass CI_word, cs')
          else if e = CHR ''W'' then Inr (EClass CI_nword, cs')
          else if e = CHR ''c'' then
            (case cs' of
               [] \<Rightarrow> Inl regex_error
             | x # cs'' \<Rightarrow> Inr (EChar x, cs''))
          else if e = CHR ''x'' then
            (case scan_hex 2 cs' of
               None \<Rightarrow> Inl regex_error
             | Some (v, rest) \<Rightarrow> Inr (EChar (char_of v), rest))
          else if e = CHR ''u'' then
            (case scan_hex 4 cs' of
               None \<Rightarrow> Inl regex_error
             | Some (v, rest) \<Rightarrow> Inr (EChar (char_of v), rest))
          else if isdigit e then
            Inr (EBackref (nat_of_digits (e # takeWhile isdigit cs')), dropWhile isdigit cs')
          else Inr (EChar e, cs'))"

lemma scan_hex_shorter: "scan_hex n cs = Some (v, rest) \<Longrightarrow> length rest \<le> length cs"
  by (induction n cs arbitrary: v rule: scan_hex.induct)
     (auto split: if_splits option.splits)

lemma eat_escape_shorter:
  "eat_escape b cs = Inr (t, rest) \<Longrightarrow> length rest < length cs"
proof -
  assume a: "eat_escape b cs = Inr (t, rest)"
  then obtain e cs' where cs: "cs = e # cs'"
    by (cases cs) (auto simp: eat_escape_def)
  have "length (dropWhile isdigit cs') \<le> length cs'"
    by (rule length_dropWhile_le)
  with a have "length rest \<le> length cs'"
    unfolding cs eat_escape_def
    by (auto split: list.splits if_splits option.splits dest: scan_hex_shorter)
  then show ?thesis by (simp add: cs)
qed

text \<open>
  Inside a bracket expression (\<^verbatim>\<open>_M_scan_in_bracket\<close>): a dash, a character, a class.
  \<^verbatim>\<open>[:name:]\<close> is a named class, ill-formed when the name is unknown or the closing
  \<^verbatim>\<open>:]\<close> is missing. The first \<^verbatim>\<open>]\<close> ends the expression; an expression that is not ended
  is ill-formed, and so is a back-reference or \<^verbatim>\<open>\B\<close> in it.
\<close>

datatype btoken = BChar char | BDash | BClass citem

definition eat_class :: "char \<Rightarrow> string \<Rightarrow> (string \<times> string) option" where
  "eat_class ch cs =
     (case dropWhile (\<lambda>x. x \<noteq> ch) cs of
        a # b # rest \<Rightarrow>
          if b = CHR '']'' then Some (takeWhile (\<lambda>x. x \<noteq> ch) cs, rest) else None
      | _ \<Rightarrow> None)"

definition class_of_name :: "string \<Rightarrow> citem option" where
  "class_of_name name =
     (let n = map tolower name in
      if n = ''d'' \<or> n = ''digit'' then Some CI_digit
      else if n = ''w'' then Some CI_word
      else if n = ''s'' \<or> n = ''space'' then Some CI_space
      else if n = ''alnum'' then Some (CI_class Alnum)
      else if n = ''alpha'' then Some (CI_class Alpha)
      else if n = ''blank'' then Some (CI_class Blank)
      else if n = ''cntrl'' then Some (CI_class Cntrl)
      else if n = ''graph'' then Some (CI_class Graph)
      else if n = ''lower'' then Some (CI_class Lower)
      else if n = ''print'' then Some (CI_class Print)
      else if n = ''punct'' then Some (CI_class Punct)
      else if n = ''upper'' then Some (CI_class Upper)
      else if n = ''xdigit'' then Some (CI_class Xdigit)
      else None)"

lemma eat_class_shorter: "eat_class ch cs = Some (name, rest) \<Longrightarrow> length rest < length cs"
proof -
  assume "eat_class ch cs = Some (name, rest)"
  then obtain a b where "dropWhile (\<lambda>x. x \<noteq> ch) cs = a # b # rest"
    by (auto simp: eat_class_def split: list.splits if_splits)
  then have "length (dropWhile (\<lambda>x. x \<noteq> ch) cs) = Suc (Suc (length rest))"
    by simp
  with length_dropWhile_le [of "\<lambda>x. x \<noteq> ch" cs] show ?thesis
    by simp
qed

text \<open>One step of the scanner inside a bracket expression: the next token, or the end.\<close>

definition bracket_step :: "string \<Rightarrow> error + (btoken option \<times> string)" where
  "bracket_step cs =
     (case cs of
        [] \<Rightarrow> Inl regex_error
      | c # cs' \<Rightarrow>
          if c = CHR '']'' then Inr (None, cs')
          else if c = CHR ''-'' then Inr (Some BDash, cs')
          else if c = CHR ''['' then
            (case cs' of
               [] \<Rightarrow> Inl regex_error
             | k # cs'' \<Rightarrow>
                 if k = CHR ''.'' \<or> k = CHR ''='' \<or> k = CHR '':'' then
                   (case eat_class k cs'' of
                      None \<Rightarrow> Inl regex_error
                    | Some (name, rest) \<Rightarrow>
                        if k = CHR '':'' then
                          (case class_of_name name of
                             None \<Rightarrow> Inl regex_error
                           | Some i \<Rightarrow> Inr (Some (BClass i), rest))
                        else Inl unsupported)
                 else Inr (Some (BChar c), cs'))
          else if c = backslash then
            (case eat_escape True cs' of
               Inl e \<Rightarrow> Inl e
             | Inr (esc, rest) \<Rightarrow>
                 (case esc of
                    EChar x \<Rightarrow> Inr (Some (BChar x), rest)
                  | EClass i \<Rightarrow> Inr (Some (BClass i), rest)
                  | EWordB neg \<Rightarrow> Inl regex_error
                  | EBackref n \<Rightarrow> Inl regex_error))
          else Inr (Some (BChar c), cs'))"

lemma bracket_step_shorter:
  "bracket_step cs = Inr (t, rest) \<Longrightarrow> length rest < length cs"
proof -
  assume a: "bracket_step cs = Inr (t, rest)"
  then obtain c cs' where cs: "cs = c # cs'"
    by (cases cs) (auto simp: bracket_step_def)
  have cls: "length ys < Suc (length zs)" if "eat_class k zs = Some (name, ys)" for k zs name ys
    using eat_class_shorter [OF that] by simp
  from a have "length rest \<le> length cs'"
    unfolding cs bracket_step_def
    by (auto split: list.splits if_splits option.splits sum.splits escaped.splits
             dest!: eat_escape_shorter cls)
  then show ?thesis by (simp add: cs)
qed

definition cons_b ::
  "btoken \<Rightarrow> error + (btoken list \<times> string) \<Rightarrow> error + (btoken list \<times> string)" where
  "cons_b t r = (case r of Inl e \<Rightarrow> Inl e | Inr (ts, rest) \<Rightarrow> Inr (t # ts, rest))"

text \<open>The tokens of a bracket expression up to its end, and the text after it.\<close>

function scan_bracket :: "string \<Rightarrow> error + (btoken list \<times> string)" where
  "scan_bracket cs =
     (case bracket_step cs of
        Inl e \<Rightarrow> Inl e
      | Inr (None, rest) \<Rightarrow> Inr ([], rest)
      | Inr (Some t, rest) \<Rightarrow> cons_b t (scan_bracket rest))"
  by pat_completeness auto
termination
  by (relation "measure length") (auto dest: bracket_step_shorter)

declare scan_bracket.simps [simp del]

lemma scan_bracket_shorter:
  "scan_bracket cs = Inr (ts, rest) \<Longrightarrow> length rest < length cs"
proof (induction cs arbitrary: ts rule: scan_bracket.induct)
  case (1 cs)
  from "1.prems" consider
    (stop) "bracket_step cs = Inr (None, rest)"
    | (more) t ys ts' where "bracket_step cs = Inr (Some t, ys)"
        "scan_bracket ys = Inr (ts', rest)"
    by (subst (asm) scan_bracket.simps)
       (auto simp: cons_b_def split: sum.splits option.splits prod.splits)
  then show ?case
  proof cases
    case stop
    then show ?thesis by (rule bracket_step_shorter)
  next
    case more
    from "1.IH" [OF more(1) refl refl more(2)] bracket_step_shorter [OF more(1)]
    show ?thesis by simp
  qed
qed

text \<open>
  The items of a bracket expression (\<^verbatim>\<open>_M_expression_term\<close>). A character is held back
  until it is known not to start a range. A dash before the closing bracket, and a dash
  that follows nothing or a range, is a character; a range that runs backwards, and a
  range that ends in a class, is ill-formed. The versions of the library disagree on a
  dash after a class.
\<close>

datatype blast = BNone | BLast char | BClassLast

fun add_last :: "blast \<Rightarrow> citem list \<Rightarrow> citem list" where
  "add_last (BLast l) acc = acc @ [CI_char l]"
| "add_last b acc = acc"

fun bracket_items :: "blast \<Rightarrow> citem list \<Rightarrow> btoken list \<Rightarrow> error + citem list" where
  "bracket_items lst acc [] = Inr (add_last lst acc)"
| "bracket_items lst acc (BChar c # ts) = bracket_items (BLast c) (add_last lst acc) ts"
| "bracket_items lst acc (BClass i # ts) = bracket_items BClassLast (add_last lst acc @ [i]) ts"
| "bracket_items lst acc [BDash] = Inr (add_last lst acc @ [CI_char (CHR ''-'')])"
| "bracket_items lst acc (BDash # t # ts) =
     (case lst of
        BClassLast \<Rightarrow> Inl unsupported
      | BNone \<Rightarrow> bracket_items (BLast (CHR ''-'')) acc (t # ts)
      | BLast l \<Rightarrow>
          (case t of
             BClass i \<Rightarrow> Inl regex_error
           | _ \<Rightarrow>
               (let r = (case t of BChar x \<Rightarrow> x | _ \<Rightarrow> CHR ''-'') in
                if 128 \<le> (of_char l :: nat) \<or> 128 \<le> (of_char r :: nat) then Inl unsupported
                else if (of_char r :: nat) < of_char l then Inl regex_error
                else bracket_items BNone (acc @ [CI_range l r]) ts)))"

text \<open>
  A counted quantifier (\<^verbatim>\<open>_M_scan_in_brace\<close> and the interval of \<^verbatim>\<open>_M_quantifier\<close>):
  \<^verbatim>\<open>{n}\<close>, \<^verbatim>\<open>{n,}\<close> or \<^verbatim>\<open>{n,m}\<close>; anything else after the opening brace is ill-formed.
\<close>

definition scan_interval :: "string \<Rightarrow> error + (quant \<times> string)" where
  "scan_interval cs =
     (let lo = takeWhile isdigit cs in
      if lo = [] then Inl regex_error
      else case dropWhile isdigit cs of
        [] \<Rightarrow> Inl regex_error
      | c # r2 \<Rightarrow>
          if c = CHR ''}'' then Inr (QRep (nat_of_digits lo) (Some (nat_of_digits lo)), r2)
          else if c = CHR '','' then
            (let hi = takeWhile isdigit r2 in
             case dropWhile isdigit r2 of
               [] \<Rightarrow> Inl regex_error
             | d # r4 \<Rightarrow>
                 if d = CHR ''}''
                 then Inr (QRep (nat_of_digits lo)
                             (if hi = [] then None else Some (nat_of_digits hi)), r4)
                 else Inl regex_error)
          else Inl regex_error)"

lemma scan_interval_shorter:
  "scan_interval cs = Inr (q, rest) \<Longrightarrow> length rest < length cs"
proof -
  assume a: "scan_interval cs = Inr (q, rest)"
  have le: "\<And>xs. length (dropWhile isdigit xs) \<le> length xs"
    by (rule length_dropWhile_le)
  from a obtain c r2 where d1: "dropWhile isdigit cs = c # r2"
    by (auto simp: scan_interval_def Let_def split: if_splits list.splits)
  from le [of cs] d1 have l1: "length r2 < length cs" by simp
  show ?thesis
  proof (cases "c = CHR ''}''")
    case True
    with a d1 have "rest = r2"
      by (auto simp: scan_interval_def Let_def split: if_splits list.splits)
    with l1 show ?thesis by simp
  next
    case False
    with a d1 obtain d where "dropWhile isdigit r2 = d # rest"
      by (auto simp: scan_interval_def Let_def split: if_splits list.splits)
    with le [of r2] have "length rest < length r2" by simp
    with l1 show ?thesis by simp
  qed
qed

text \<open>
  Outside a bracket expression (\<^verbatim>\<open>_M_scan_normal\<close>). The characters \<^verbatim>\<open>]\<close> and \<^verbatim>\<open>}\<close> stand for
  themselves there; \<^verbatim>\<open>(?\<close> must go on as \<^verbatim>\<open>(?:\<close>, \<^verbatim>\<open>(?=\<close> or \<^verbatim>\<open>(?!\<close>.
\<close>

fun token_of_escaped :: "escaped \<Rightarrow> token" where
  "token_of_escaped (EChar x) = TChar x"
| "token_of_escaped (EClass i) = TClass False [i]"
| "token_of_escaped (EWordB neg) = TWordB neg"
| "token_of_escaped (EBackref n) = TBackref n"

definition cons_token :: "token \<Rightarrow> error + token list \<Rightarrow> error + token list" where
  "cons_token t r = (case r of Inl e \<Rightarrow> Inl e | Inr ts \<Rightarrow> Inr (t # ts))"

function scan :: "string \<Rightarrow> error + token list" where
  "scan [] = Inr []"
| "scan (c # cs) =
     (if c = backslash then
        (case eat_escape False cs of
           Inl err \<Rightarrow> Inl err
         | Inr (esc, rest) \<Rightarrow> cons_token (token_of_escaped esc) (scan rest))
      else if c = CHR ''['' then
        (case cs of
           [] \<Rightarrow> Inl regex_error
         | n # cs' \<Rightarrow>
             (case scan_bracket (if n = CHR ''^'' then cs' else cs) of
                Inl err \<Rightarrow> Inl err
              | Inr (bts, rest) \<Rightarrow>
                  (case bracket_items BNone [] bts of
                     Inl err \<Rightarrow> Inl err
                   | Inr items \<Rightarrow> cons_token (TClass (n = CHR ''^'') items) (scan rest))))
      else if c = CHR ''('' then
        (case cs of
           q # cs' \<Rightarrow>
             if q = CHR ''?'' then
               (case cs' of
                  k # cs'' \<Rightarrow>
                    if k = CHR '':'' then cons_token TOpenNC (scan cs'')
                    else if k = CHR ''='' then cons_token (TOpenLook False) (scan cs'')
                    else if k = CHR ''!'' then cons_token (TOpenLook True) (scan cs'')
                    else Inl regex_error
                | [] \<Rightarrow> Inl regex_error)
             else cons_token TOpen (scan cs)
         | [] \<Rightarrow> cons_token TOpen (scan cs))
      else if c = CHR '')'' then cons_token TClose (scan cs)
      else if c = CHR ''|'' then cons_token TBar (scan cs)
      else if c = CHR ''*'' then cons_token (TQuant QStar) (scan cs)
      else if c = CHR ''+'' then cons_token (TQuant QPlus) (scan cs)
      else if c = CHR ''?'' then cons_token (TQuant QOpt) (scan cs)
      else if c = CHR ''.'' then cons_token TAny (scan cs)
      else if c = CHR ''^'' then cons_token TBol (scan cs)
      else if c = CHR ''$'' then cons_token TEol (scan cs)
      else if c = CHR ''{'' then
        (case scan_interval cs of
           Inl err \<Rightarrow> Inl err
         | Inr (q, rest) \<Rightarrow> cons_token (TQuant q) (scan rest))
      else cons_token (TChar c) (scan cs))"
  by pat_completeness auto
termination
proof (relation "measure length")
  show "wf (measure length)" by simp
next
  fix c cs x and esc :: escaped and rest
  assume "eat_escape False cs = Inr x" "(esc, rest) = x"
  then have "eat_escape False cs = Inr (esc, rest)" by simp
  from eat_escape_shorter [OF this] show "(rest, c # cs) \<in> measure length" by simp
next
  fix c cs n cs' x and bts :: "btoken list" and rest x2
  assume "cs = n # cs'" "scan_bracket (if n = CHR ''^'' then cs' else cs) = Inr x"
    "(bts, rest) = x"
  then have "scan_bracket (if n = CHR ''^'' then cs' else cs) = Inr (bts, rest)" by simp
  from scan_bracket_shorter [OF this] \<open>cs = n # cs'\<close>
  show "(rest, c # cs) \<in> measure length" by (simp split: if_splits)
next
  fix c cs x and q :: quant and rest
  assume "scan_interval cs = Inr x" "(q, rest) = x"
  then have "scan_interval cs = Inr (q, rest)" by simp
  from scan_interval_shorter [OF this] show "(rest, c # cs) \<in> measure length" by simp
qed simp_all

subsection \<open>Parser\<close>

text \<open>
  A frame is an open group: its kind (the whole pattern, \<^verbatim>\<open>(?:\<close>, a capture group with its
  index, a look-ahead), the alternatives already closed by a bar, and the terms of the
  alternative being read. Capture groups are numbered from 1 in the order of their
  opening parentheses.
\<close>

datatype fkind = FTop | FNonCap | FGroup nat | FLook bool

type_synonym frame = "fkind \<times> regex list \<times> regex list"

definition seq_of :: "regex list \<Rightarrow> regex" where
  "seq_of ts = foldr Seq ts Eps"

fun alt_of :: "regex list \<Rightarrow> regex" where
  "alt_of [] = Eps"
| "alt_of [a] = a"
| "alt_of (a # b # bs) = Alt a (alt_of (b # bs))"

fun close_frame :: "frame \<Rightarrow> regex" where
  "close_frame (FGroup n, alts, cur) = Grp n (alt_of (alts @ [seq_of cur]))"
| "close_frame (FLook neg, alts, cur) = Look neg (alt_of (alts @ [seq_of cur]))"
| "close_frame (k, alts, cur) = alt_of (alts @ [seq_of cur])"

text \<open>
  \<open>has_anchor r\<close>: the pattern tests the start of the subject or a word boundary
  somewhere. Inside a look-ahead the library runs these tests in a way that depends on
  its version.
\<close>

fun has_anchor :: "regex \<Rightarrow> bool" where
  "has_anchor Bol = True"
| "has_anchor (WordB neg) = True"
| "has_anchor (Seq a b) = (has_anchor a \<or> has_anchor b)"
| "has_anchor (Alt a b) = (has_anchor a \<or> has_anchor b)"
| "has_anchor (Star a) = has_anchor a"
| "has_anchor (Plus a) = has_anchor a"
| "has_anchor (Opt a) = has_anchor a"
| "has_anchor (Grp n a) = has_anchor a"
| "has_anchor (StarL a) = has_anchor a"
| "has_anchor (PlusL a) = has_anchor a"
| "has_anchor (OptL a) = has_anchor a"
| "has_anchor (Look neg a) = has_anchor a"
| "has_anchor r = False"

text \<open>
  A quantifier needs an atom, or a quantified atom, before it: after an assertion
  (\<^verbatim>\<open>^\<close>, \<^verbatim>\<open>$\<close>, a word boundary, a look-ahead), or with nothing before it, the pattern is
  ill-formed. A question mark directly after a quantifier makes it lazy.
  \<^verbatim>\<open>{n,m}\<close> is \<open>n\<close> copies followed by \<open>m - n\<close> nested optional copies, \<^verbatim>\<open>{n,}\<close> is \<open>n\<close> copies
  followed by a star; \<open>m < n\<close> is ill-formed.
\<close>

fun quantifiable :: "regex \<Rightarrow> bool" where
  "quantifiable Bol = False"
| "quantifiable Eol = False"
| "quantifiable (WordB neg) = False"
| "quantifiable (Look neg a) = False"
| "quantifiable r = True"

fun copies :: "nat \<Rightarrow> regex \<Rightarrow> regex \<Rightarrow> regex" where
  "copies 0 r k = k"
| "copies (Suc n) r k = Seq r (copies n r k)"

fun optionals :: "bool \<Rightarrow> nat \<Rightarrow> regex \<Rightarrow> regex" where
  "optionals lazy 0 r = Eps"
| "optionals lazy (Suc n) r =
     (if lazy then OptL (Seq r (optionals lazy n r)) else Opt (Seq r (optionals lazy n r)))"

fun quantify :: "bool \<Rightarrow> quant \<Rightarrow> regex \<Rightarrow> error + regex" where
  "quantify lazy q r =
     (if \<not> quantifiable r then Inl regex_error
      else case q of
             QStar \<Rightarrow> Inr (if lazy then StarL r else Star r)
           | QPlus \<Rightarrow> Inr (if lazy then PlusL r else Plus r)
           | QOpt \<Rightarrow> Inr (if lazy then OptL r else Opt r)
           | QRep lo None \<Rightarrow> Inr (copies lo r (if lazy then StarL r else Star r))
           | QRep lo (Some hi) \<Rightarrow>
               if hi < lo then Inl regex_error
               else Inr (copies lo r (optionals lazy (hi - lo) r)))"

fun atom_of :: "token \<Rightarrow> regex" where
  "atom_of (TChar c) = Chr c"
| "atom_of TAny = Any"
| "atom_of (TClass neg items) = Cls neg items"
| "atom_of TBol = Bol"
| "atom_of TEol = Eol"
| "atom_of (TWordB neg) = WordB neg"
| "atom_of t = Eps"

fun open_groups :: "frame list \<Rightarrow> nat list" where
  "open_groups [] = []"
| "open_groups ((FGroup n, alts, cur) # stk) = n # open_groups stk"
| "open_groups (f # stk) = open_groups stk"

text \<open>
  \<open>parse stk n ts\<close>: \<open>stk\<close> holds the open groups, the innermost first, and \<open>n\<close> is the index
  of the next capture group. A back-reference to a group that is not yet opened, or
  not yet closed, is ill-formed.
\<close>

function parse :: "frame list \<Rightarrow> nat \<Rightarrow> token list \<Rightarrow> error + regex" where
  "parse stk n [] =
     (case stk of
        [f] \<Rightarrow> Inr (close_frame f)
      | _ \<Rightarrow> Inl regex_error)"
| "parse stk n (t # ts) =
     (case stk of
        [] \<Rightarrow> Inl regex_error
      | (k, alts, cur) # stk' \<Rightarrow>
          (case t of
             TOpen \<Rightarrow> parse ((FGroup n, [], []) # stk) (Suc n) ts
           | TOpenNC \<Rightarrow> parse ((FNonCap, [], []) # stk) n ts
           | TOpenLook neg \<Rightarrow> parse ((FLook neg, [], []) # stk) n ts
           | TClose \<Rightarrow>
               (case stk' of
                  [] \<Rightarrow> Inl regex_error
                | (k', alts', cur') # stk'' \<Rightarrow>
                    if (case k of FLook neg \<Rightarrow> has_anchor (close_frame (k, alts, cur))
                        | _ \<Rightarrow> False)
                    then Inl unsupported
                    else parse ((k', alts', cur' @ [close_frame (k, alts, cur)]) # stk'') n ts)
           | TBar \<Rightarrow> parse ((k, alts @ [seq_of cur], []) # stk') n ts
           | TQuant q \<Rightarrow>
               (if cur = [] then Inl regex_error
                else let lazy = (case ts of TQuant QOpt # ts' \<Rightarrow> True | _ \<Rightarrow> False) in
                  case quantify lazy q (last cur) of
                    Inl e \<Rightarrow> Inl e
                  | Inr r \<Rightarrow>
                      parse ((k, alts, butlast cur @ [r]) # stk') n (if lazy then tl ts else ts))
           | TBackref i \<Rightarrow>
               (if i < n \<and> i \<notin> set (open_groups stk)
                then parse ((k, alts, cur @ [Back i]) # stk') n ts
                else Inl regex_error)
           | _ \<Rightarrow> parse ((k, alts, cur @ [atom_of t]) # stk') n ts))"
  by pat_completeness auto
termination
  by (relation "measure (\<lambda>(stk, n, ts). length ts)") auto

text \<open>
  A back-reference takes the text that its group captured last. What a group has
  captured after an iteration of a quantifier that consumed nothing is particular to
  the library's matcher, so a pattern that has a back-reference and repeats a capture
  group is not interpreted.
\<close>

fun has_backref :: "regex \<Rightarrow> bool" where
  "has_backref (Back i) = True"
| "has_backref (Seq a b) = (has_backref a \<or> has_backref b)"
| "has_backref (Alt a b) = (has_backref a \<or> has_backref b)"
| "has_backref (Star a) = has_backref a"
| "has_backref (Plus a) = has_backref a"
| "has_backref (Opt a) = has_backref a"
| "has_backref (Grp n a) = has_backref a"
| "has_backref (StarL a) = has_backref a"
| "has_backref (PlusL a) = has_backref a"
| "has_backref (OptL a) = has_backref a"
| "has_backref (Look neg a) = has_backref a"
| "has_backref r = False"

fun has_group :: "regex \<Rightarrow> bool" where
  "has_group (Grp n a) = True"
| "has_group (Seq a b) = (has_group a \<or> has_group b)"
| "has_group (Alt a b) = (has_group a \<or> has_group b)"
| "has_group (Star a) = has_group a"
| "has_group (Plus a) = has_group a"
| "has_group (Opt a) = has_group a"
| "has_group (StarL a) = has_group a"
| "has_group (PlusL a) = has_group a"
| "has_group (OptL a) = has_group a"
| "has_group (Look neg a) = has_group a"
| "has_group r = False"

fun repeats_group :: "regex \<Rightarrow> bool" where
  "repeats_group (Star a) = has_group a"
| "repeats_group (Plus a) = has_group a"
| "repeats_group (Opt a) = has_group a"
| "repeats_group (StarL a) = has_group a"
| "repeats_group (PlusL a) = has_group a"
| "repeats_group (OptL a) = has_group a"
| "repeats_group (Seq a b) = (repeats_group a \<or> repeats_group b)"
| "repeats_group (Alt a b) = (repeats_group a \<or> repeats_group b)"
| "repeats_group (Grp n a) = repeats_group a"
| "repeats_group (Look neg a) = repeats_group a"
| "repeats_group r = False"

text \<open>The constructor \<^verbatim>\<open>std::regex(pattern)\<close> with the default (ECMAScript) grammar.\<close>

definition regex_compile :: "string \<Rightarrow> error + regex" where
  "regex_compile pat =
     (case scan pat of
        Inl e \<Rightarrow> Inl e
      | Inr ts \<Rightarrow>
          (case parse [(FTop, [], [])] 1 ts of
             Inl e \<Rightarrow> Inl e
           | Inr r \<Rightarrow>
               if has_backref r \<and> repeats_group r then Inl unsupported else Inr r))"

section \<open>std::regex: matching\<close>

text \<open>
  A matcher state is the position in the subject, the text from there on, and the
  captures made so far (the latest binding of an index first). \<open>rmatch s r st\<close> lists the
  states in which a match of \<open>r\<close> begun in \<open>st\<close> can end, in the order in which the
  backtracking matcher of ECMAScript tries them: the left alternative before the right
  one, more iterations of a quantifier before fewer (fewer before more for a lazy
  one). An iteration of \<open>*\<close> or \<open>?\<close> that consumes nothing is rejected. \<open>^\<close> holds at the
  start of the subject only and \<open>$\<close> at its end only (no multiline mode); \<open>.\<close> is any
  character but a line terminator. A word boundary compares the character before the
  position, read from the subject \<open>s\<close>, with the character at the position. A
  back-reference to a group that has captured nothing fails, as it does in the library.
\<close>

type_synonym mstate = "nat \<times> string \<times> (nat \<times> string) list"

definition remaining :: "mstate \<Rightarrow> nat" where
  "remaining st = length (fst (snd st))"

fun weight :: "regex \<Rightarrow> nat" where
  "weight (Seq a b) = Suc (weight a + weight b)"
| "weight (Alt a b) = Suc (weight a + weight b)"
| "weight (Star a) = Suc (weight a)"
| "weight (Plus a) = Suc (Suc (weight a))"
| "weight (Opt a) = Suc (weight a)"
| "weight (Grp n a) = Suc (weight a)"
| "weight (StarL a) = Suc (weight a)"
| "weight (PlusL a) = Suc (Suc (weight a))"
| "weight (OptL a) = Suc (weight a)"
| "weight (Look neg a) = Suc (weight a)"
| "weight r = 0"

definition word_boundary :: "string \<Rightarrow> nat \<Rightarrow> string \<Rightarrow> bool" where
  "word_boundary s p rest =
     ((0 < p \<and> p \<le> length s \<and> isword (s ! (p - 1))) \<noteq> (rest \<noteq> [] \<and> isword (hd rest)))"

function rmatch :: "string \<Rightarrow> regex \<Rightarrow> mstate \<Rightarrow> mstate list" where
  "rmatch s Eps st = [st]"
| "rmatch s (Chr c) (p, rest, caps) =
     (case rest of
        [] \<Rightarrow> []
      | x # xs \<Rightarrow> if x = c then [(Suc p, xs, caps)] else [])"
| "rmatch s Any (p, rest, caps) =
     (case rest of
        [] \<Rightarrow> []
      | x # xs \<Rightarrow> if x \<noteq> CHR 0x0A \<and> x \<noteq> CHR 0x0D then [(Suc p, xs, caps)] else [])"
| "rmatch s (Cls neg items) (p, rest, caps) =
     (case rest of
        [] \<Rightarrow> []
      | x # xs \<Rightarrow> if class_matches neg items x then [(Suc p, xs, caps)] else [])"
| "rmatch s Bol (p, rest, caps) = (if p = 0 then [(p, rest, caps)] else [])"
| "rmatch s Eol (p, rest, caps) = (if rest = [] then [(p, rest, caps)] else [])"
| "rmatch s (Seq a b) st = concat (map (rmatch s b) (rmatch s a st))"
| "rmatch s (Alt a b) st = rmatch s a st @ rmatch s b st"
| "rmatch s (Star a) st =
     concat (map (rmatch s (Star a))
                 (filter (\<lambda>st'. remaining st' < remaining st) (rmatch s a st))) @ [st]"
| "rmatch s (Plus a) st = concat (map (rmatch s (Star a)) (rmatch s a st))"
| "rmatch s (Opt a) st = filter (\<lambda>st'. remaining st' < remaining st) (rmatch s a st) @ [st]"
| "rmatch s (Grp n a) (p, rest, caps) =
     map (\<lambda>(p', rest', caps'). (p', rest', (n, take (p' - p) rest) # caps'))
         (rmatch s a (p, rest, caps))"
| "rmatch s (StarL a) st =
     st # concat (map (rmatch s (StarL a))
                      (filter (\<lambda>st'. remaining st' < remaining st) (rmatch s a st)))"
| "rmatch s (PlusL a) st = concat (map (rmatch s (StarL a)) (rmatch s a st))"
| "rmatch s (OptL a) st = st # filter (\<lambda>st'. remaining st' < remaining st) (rmatch s a st)"
| "rmatch s (Look neg a) (p, rest, caps) =
     (case rmatch s a (p, rest, caps) of
        [] \<Rightarrow> if neg then [(p, rest, caps)] else []
      | (p', rest', caps') # ms \<Rightarrow> if neg then [] else [(p, rest, caps')])"
| "rmatch s (WordB neg) (p, rest, caps) =
     (if word_boundary s p rest \<noteq> neg then [(p, rest, caps)] else [])"
| "rmatch s (Back i) (p, rest, caps) =
     (case map_of caps i of
        None \<Rightarrow> []
      | Some w \<Rightarrow>
          if take (length w) rest = w then [(p + length w, drop (length w) rest, caps)]
          else [])"
  by pat_completeness auto
termination
  by (relation "inv_image (less_than <*lex*> less_than)
                  (\<lambda>(s, r, st). (weight r, remaining st))")
     auto

text \<open>The equations of \<open>Star\<close> and \<open>StarL\<close> unfold into themselves: they are applied by hand.\<close>

declare rmatch.simps(9) [simp del]
declare rmatch.simps(13) [simp del]

text \<open>
  \<^verbatim>\<open>std::regex_search\<close> from position \<open>p\<close> on: the leftmost start at which the pattern
  matches, with the end state of the first match found there.
\<close>

fun regex_search_from :: "string \<Rightarrow> regex \<Rightarrow> nat \<Rightarrow> string \<Rightarrow> (nat \<times> mstate) option" where
  "regex_search_from s r p [] =
     (case rmatch s r (p, [], []) of m # ms \<Rightarrow> Some (p, m) | [] \<Rightarrow> None)"
| "regex_search_from s r p (x # xs) =
     (case rmatch s r (p, x # xs, []) of
        m # ms \<Rightarrow> Some (p, m)
      | [] \<Rightarrow> regex_search_from s r (Suc p) xs)"

definition regex_search :: "regex \<Rightarrow> string \<Rightarrow> bool" where
  "regex_search r s = (regex_search_from s r 0 s \<noteq> None)"

text \<open>A match ends at or after the position where it began, inside the subject.\<close>

lemma rmatch_bounds:
  "(p', rest', caps') \<in> set (rmatch subj r (p, rest, caps)) \<Longrightarrow>
     p \<le> p' \<and> p' + length rest' = p + length rest"
proof (induction subj r "(p, rest, caps)" arbitrary: p rest caps p' rest' caps'
       rule: rmatch.induct)
  case (1 s)
  then show ?case by simp
next
  case (2 s c p rest caps)
  then show ?case by (auto split: list.splits if_splits)
next
  case (3 s p rest caps)
  then show ?case by (auto split: list.splits if_splits)
next
  case (4 s neg items p rest caps)
  then show ?case by (auto split: list.splits if_splits)
next
  case (5 s p rest caps)
  then show ?case by (auto split: if_splits)
next
  case (6 s p rest caps)
  then show ?case by (auto split: if_splits)
next
  case (7 s a b)
  from "7.prems" obtain p1 r1 c1 where
    m1: "(p1, r1, c1) \<in> set (rmatch s a (p, rest, caps))" and
    m2: "(p', rest', caps') \<in> set (rmatch s b (p1, r1, c1))"
    by auto
  from "7.hyps"(1) [OF m1] "7.hyps"(2) [OF m1 m2] show ?case by simp
next
  case (8 s a b)
  then show ?case by auto
next
  case (9 s a)
  from "9.prems" consider
    (stop) "(p', rest', caps') = (p, rest, caps)" |
    (iter) p1 r1 c1 where "(p1, r1, c1) \<in> set (rmatch s a (p, rest, caps))"
      "remaining (p1, r1, c1) < remaining (p, rest, caps)"
      "(p', rest', caps') \<in> set (rmatch s (Star a) (p1, r1, c1))"
    by (subst (asm) rmatch.simps(9)) auto
  then show ?case
  proof cases
    case stop
    then show ?thesis by simp
  next
    case iter
    from "9.hyps"(1) [OF iter(1)] "9.hyps"(2) [OF _ iter(3)] iter(1,2)
    show ?thesis by simp
  qed
next
  case (10 s a)
  from "10.prems" obtain p1 r1 c1 where
    m1: "(p1, r1, c1) \<in> set (rmatch s a (p, rest, caps))" and
    m2: "(p', rest', caps') \<in> set (rmatch s (Star a) (p1, r1, c1))"
    by auto
  from "10.hyps"(1) [OF m1] "10.hyps"(2) [OF m1 m2] show ?case by simp
next
  case (11 s a)
  then show ?case by auto
next
  case (12 s n a p rest caps)
  then show ?case by auto
next
  case (13 s a)
  from "13.prems" consider
    (stop) "(p', rest', caps') = (p, rest, caps)" |
    (iter) p1 r1 c1 where "(p1, r1, c1) \<in> set (rmatch s a (p, rest, caps))"
      "remaining (p1, r1, c1) < remaining (p, rest, caps)"
      "(p', rest', caps') \<in> set (rmatch s (StarL a) (p1, r1, c1))"
    by (subst (asm) rmatch.simps(13)) auto
  then show ?case
  proof cases
    case stop
    then show ?thesis by simp
  next
    case iter
    from "13.hyps"(1) [OF iter(1)] "13.hyps"(2) [OF _ iter(3)] iter(1,2)
    show ?thesis by simp
  qed
next
  case (14 s a)
  from "14.prems" obtain p1 r1 c1 where
    m1: "(p1, r1, c1) \<in> set (rmatch s a (p, rest, caps))" and
    m2: "(p', rest', caps') \<in> set (rmatch s (StarL a) (p1, r1, c1))"
    by auto
  from "14.hyps"(1) [OF m1] "14.hyps"(2) [OF m1 m2] show ?case by simp
next
  case (15 s a)
  then show ?case by auto
next
  case (16 s neg a p rest caps)
  then show ?case by (auto split: list.splits if_splits)
next
  case (17 s neg p rest caps)
  then show ?case by (auto split: if_splits)
next
  case (18 s i p rest caps)
  from "18.prems" obtain w where "take (length w) rest = w"
    and "p' = p + length w" and "rest' = drop (length w) rest"
    by (auto split: option.splits if_splits)
  moreover from this(1) have "length w \<le> length rest"
    using length_take [of "length w" rest] by simp
  ultimately show ?case by simp
qed

lemma regex_search_from_bounds:
  "regex_search_from subj r p rest = Some (b, e, rest', caps) \<Longrightarrow>
     p \<le> b \<and> b \<le> e \<and> e + length rest' = p + length rest"
proof (induction rest arbitrary: p)
  case Nil
  then obtain ms where "rmatch subj r (p, [], []) = (e, rest', caps) # ms" and "b = p"
    by (auto split: list.splits)
  then have "(e, rest', caps) \<in> set (rmatch subj r (p, [], []))"
    by simp
  from rmatch_bounds [OF this] \<open>b = p\<close> show ?case by simp
next
  case (Cons x xs)
  show ?case
  proof (cases "rmatch subj r (p, x # xs, [])")
    case Nil
    with Cons.prems have "regex_search_from subj r (Suc p) xs = Some (b, e, rest', caps)"
      by simp
    from Cons.IH [OF this] show ?thesis by simp
  next
    case (Cons m ms)
    with Cons.prems have "m = (e, rest', caps)" and "b = p"
      by simp_all
    with Cons have "(e, rest', caps) \<in> set (rmatch subj r (p, x # xs, []))"
      by simp
    from rmatch_bounds [OF this] \<open>b = p\<close> show ?thesis by simp
  qed
qed

section \<open>std::regex: replacing matches\<close>

text \<open>
  The ECMAScript format string of \<^verbatim>\<open>regex_replace\<close>: \<^verbatim>\<open>$$\<close> is a dollar sign, \<^verbatim>\<open>$&\<close> the
  match, \<^verbatim>\<open>$`\<close> the text before it, \<^verbatim>\<open>$'\<close> the text after it, \<^verbatim>\<open>$n\<close> and \<^verbatim>\<open>$nn\<close> a capture
  (empty when the group took no part in the match; group 0 is the match).
\<close>

definition capture :: "nat \<Rightarrow> string \<Rightarrow> (nat \<times> string) list \<Rightarrow> string" where
  "capture n m caps = (if n = 0 then m else case map_of caps n of None \<Rightarrow> [] | Some s \<Rightarrow> s)"

fun regex_format :: "string \<Rightarrow> string \<Rightarrow> string \<Rightarrow> string \<Rightarrow> (nat \<times> string) list \<Rightarrow> string" where
  "regex_format [] pre m suf caps = []"
| "regex_format [c] pre m suf caps = [c]"
| "regex_format (c # d # cs) pre m suf caps =
     (if c \<noteq> CHR ''$'' then c # regex_format (d # cs) pre m suf caps
      else if d = CHR ''$'' then CHR ''$'' # regex_format cs pre m suf caps
      else if d = CHR ''&'' then m @ regex_format cs pre m suf caps
      else if d = CHR 0x60 then pre @ regex_format cs pre m suf caps
      else if d = CHR 0x27 then suf @ regex_format cs pre m suf caps
      else if isdigit d then
        (case cs of
           [] \<Rightarrow> capture (digit_value d) m caps
         | e # cs' \<Rightarrow>
             if isdigit e
             then capture (10 * digit_value d + digit_value e) m caps
                    @ regex_format cs' pre m suf caps
             else capture (digit_value d) m caps @ regex_format cs pre m suf caps)
      else c # regex_format (d # cs) pre m suf caps)"

text \<open>
  \<^verbatim>\<open>std::regex_replace(s, re, fmt)\<close>: every match of the pattern, found from left to right
  and each search resuming where the last match ended, is replaced by the formatted
  text; the text between matches is copied. A match of the empty string makes the
  library retry at the same position under other flags; that case is not interpreted
  (the one pattern that the program replaces with, in \<open>GetTableName\<close>, takes at least one
  space).
\<close>

function regex_replace_from ::
  "string \<Rightarrow> regex \<Rightarrow> string \<Rightarrow> nat \<Rightarrow> string \<Rightarrow> error + string" where
  "regex_replace_from subj r fmt p rest =
     (case regex_search_from subj r p rest of
        None \<Rightarrow> Inr rest
      | Some (b, e, rest', caps) \<Rightarrow>
          if e \<le> b then Inl unsupported
          else (case regex_replace_from subj r fmt e rest' of
                  Inl err \<Rightarrow> Inl err
                | Inr out \<Rightarrow>
                    Inr (take (b - p) rest
                         @ regex_format fmt (take (b - p) rest)
                             (take (e - b) (drop (b - p) rest)) rest' caps
                         @ out)))"
  by pat_completeness auto
termination
  by (relation "measure (\<lambda>(subj, r, fmt, p, rest). length rest)")
     (auto dest: regex_search_from_bounds)

declare regex_replace_from.simps [simp del]

definition regex_replace :: "string \<Rightarrow> regex \<Rightarrow> string \<Rightarrow> error + string" where
  "regex_replace s r fmt = regex_replace_from s r fmt 0 s"

section \<open>The statement classifier (list.cpp)\<close>

definition GetTableName :: "string \<Rightarrow> error + string" where
  "GetTableName sql_statement =
     (let table_template = ''create table'' in
      case string_find sql_statement table_template of
        None \<Rightarrow> Inr []
      | Some found \<Rightarrow>
          (case substr sql_statement (found + length table_template) None of
             Inl e \<Rightarrow> Inl e
           | Inr rest \<Rightarrow>
               (case regex_compile ''^ +| +$|( ) +'' of
                  Inl e \<Rightarrow> Inl e
                | Inr re \<Rightarrow>
                    (case regex_replace rest re ''$1'' of
                       Inl e \<Rightarrow> Inl e
                     | Inr rest' \<Rightarrow> substr rest' 0 (find_char rest' (CHR '' ''))))))"

definition IsCreateStatement :: "string \<Rightarrow> bool" where
  "IsCreateStatement sql_statement =
     (let table_template = ''create table'' in
      case string_find sql_statement table_template of
        None \<Rightarrow> False
      | Some found \<Rightarrow> True)"

section \<open>Diagnostics and the pattern check\<close>

text \<open>
  Modelled from the spec: the declarations of \<^verbatim>\<open>include/checker.h\<close> (the severity levels,
  the pattern categories, the configuration) and the function \<^verbatim>\<open>CheckPattern\<close> are not in
  \<^verbatim>\<open>list.cpp\<close>. The specification gives severities \<open>INFO < WARN < ERROR\<close>, categories
  \<open>QUERY\<close> and \<open>CREATION\<close>, a diagnostic made of the rule's title, severity, category and
  message together with the offending statement, and a configuration that holds the
  rules that are switched off and the verbosity.
\<close>

datatype LogLevel = LOG_LEVEL_INFO | LOG_LEVEL_WARN | LOG_LEVEL_ERROR

datatype PatternType = PATTERN_TYPE_QUERY | PATTERN_TYPE_CREATION

record Diagnostic =
  diag_title :: string
  diag_severity :: LogLevel
  diag_category :: PatternType
  diag_message :: string
  diag_statement :: string

record Configuration =
  disabled_rules :: "string list"
  verbose :: bool

text \<open>
  Modelled from the spec: \<^verbatim>\<open>CheckPattern\<close> (defined in \<^verbatim>\<open>checker.cpp\<close>, absent here). The pattern
  is searched for anywhere in the statement. With the policy match-means-violation
  (\<open>exists = True\<close>) the rule is violated when the pattern is found, with
  absence-means-violation (\<open>exists = False\<close>) when it is not; on a violation one
  diagnostic with the rule's title, severity, category and message is emitted. The
  configuration is read-only and does not gate the check.
\<close>

definition CheckPattern ::
  "Configuration \<Rightarrow> string \<Rightarrow> regex \<Rightarrow> LogLevel \<Rightarrow> PatternType \<Rightarrow> string \<Rightarrow> string \<Rightarrow> bool
     \<Rightarrow> Diagnostic list" where
  "CheckPattern state sql_statement pattern level pattern_type title message exists =
     (if regex_search pattern sql_statement = exists
      then [\<lparr>diag_title = title, diag_severity = level, diag_category = pattern_type,
             diag_message = message, diag_statement = sql_statement\<rparr>]
      else [])"

section \<open>The rules (list.cpp)\<close>

subsection \<open>Rationale messages\<close>

definition CheckSelectStar_message1 :: string where
  "CheckSelectStar_message1 =
     [CHR 0xE2, CHR 0x97, CHR 0x8F] @ '' Inefficiency in moving data to the consumer:\<newline>'' @
     ''When you SELECT *, you'' @ [CHR 0x27] @ ''re often retrieving more columns from the database than\<newline>'' @
     ''your application really needs to function. This causes more data to move from\<newline>'' @
     ''the database server to the client, slowing access and increasing load on your\<newline>'' @
     ''machines, as well as taking more time to travel across the network. This is\<newline>'' @
     ''especially true when someone adds new columns to underlying tables that didn'' @ [CHR 0x27] @ ''t\<newline>'' @
     ''exist and weren'' @ [CHR 0x27] @ ''t needed when the original consumers coded their data access.\<newline>''"

definition CheckSelectStar_message2 :: string where
  "CheckSelectStar_message2 =
     [CHR 0xE2, CHR 0x97, CHR 0x8F] @ '' Indexing issues:\<newline>'' @
     ''Consider a scenario where you want to tune a query to a high level of performance.\<newline>'' @
     ''If you were to use *, and it returned more columns than you actually needed,\<newline>'' @
     ''the server would often have to perform more expensive methods to retrieve your\<newline>'' @
     ''data than it otherwise might. For example, you wouldn'' @ [CHR 0x27] @ ''t be able to create an index\<newline>'' @
     ''which simply covered the columns in your SELECT list, and even if you did\<newline>'' @
     ''(including all columns [shudder]), the next guy who came around and added a column\<newline>'' @
     ''to the underlying table would cause the optimizer to ignore your optimized covering\<newline>'' @
     ''index, and you'' @ [CHR 0x27] @ ''d likely find that the performance of your query would drop\<newline>'' @
     ''substantially for no readily apparent reason.\<newline>''"

definition CheckSelectStar_message3 :: string where
  "CheckSelectStar_message3 =
     [CHR 0xE2, CHR 0x97, CHR 0x8F] @ '' Binding Problems:\<newline>'' @
     ''When you SELECT *, it'' @ [CHR 0x27] @ ''s possible to retrieve two columns of the same name from two\<newline>'' @
     ''different tables. This can often crash your data consumer. Imagine a query that joins\<newline>'' @
     ''two tables, both of which contain a column called '' @ [CHR 0x22] @ ''ID'' @ [CHR 0x22] @ ''. How would a consumer know\<newline>'' @
     ''which was which? SELECT * can also confuse views (at least in some versions SQL Server)\<newline>'' @
     ''when underlying table structures change -- the view is not rebuilt, and the data which\<newline>'' @
     ''comes back can be nonsense. And the worst part of it is that you can take care to name\<newline>'' @
     ''your columns whatever you want, but the next guy who comes along might have no way of\<newline>'' @
     ''knowing that he has to worry about adding a column which will collide with your\<newline>'' @
     ''already-developed names.\<newline>''"

definition CheckMultiValuedAttribute_message :: string where
  "CheckMultiValuedAttribute_message =
     [CHR 0xE2, CHR 0x97, CHR 0x8F] @ '' Store each value in its own column and row:\<newline>'' @
     ''Storing a list of IDs as a VARCHAR/TEXT column can cause performance and data integrity\<newline>'' @
     ''problems. Querying against such a column would require using pattern-matching\<newline>'' @
     ''expressions. It is awkward and costly to join a comma-separated list to matching rows.\<newline>'' @
     ''This will make it harder to validate IDs. Think about what is the greatest number of\<newline>'' @
     ''entries this list must support? Instead of using a multi-valued attribute,\<newline>'' @
     ''consider storing it in a separate table, so that each individual value of that attribute\<newline>'' @
     ''occupies a separate row. Such an intersection table implements a many-to-many relationship\<newline>'' @
     ''between the two referenced tables. This will greatly simplify querying and validating\<newline>'' @
     ''the IDs.\<newline>''"

definition CheckRecursiveDependency_message :: string where
  "CheckRecursiveDependency_message =
     [CHR 0xE2, CHR 0x97, CHR 0x8F] @ '' Avoid recursive relationships:\<newline>'' @
     ''It'' @ [CHR 0xE2, CHR 0x80, CHR 0x99] @ ''s common for data to have recursive relationships. Data may be organized in a\<newline>'' @
     ''treelike or hierarchical way. However, creating a foreign key constraint to enforce\<newline>'' @
     ''the relationship between two columns in the same table lends to awkward querying.\<newline>'' @
     ''Each level of the tree corresponds to another join. You will need to issue recursive\<newline>'' @
     ''queries to get all descendants or all ancestors of a node.\<newline>'' @
     ''A solution is to construct an additional closure table. It involves storing all paths\<newline>'' @
     ''through the tree, not just those with a direct parent-child relationship.\<newline>'' @
     ''You might want to compare different hierarchical data designs -- closure table,\<newline>'' @
     ''path enumeration, nested sets -- and pick one based on your application'' @ [CHR 0x27] @ ''s needs.\<newline>''"

definition CheckPrimaryKeyExists_message :: string where
  "CheckPrimaryKeyExists_message =
     [CHR 0xE2, CHR 0x97, CHR 0x8F] @ '' Consider adding a primary key:\<newline>'' @
     ''A primary key constraint is important when you need to do the following:\<newline>'' @
     ''prevent a table from containing duplicate rows,\<newline>'' @
     ''reference individual rows in queries, and\<newline>'' @
     ''support foreign key references\<newline>'' @
     ''If you don'' @ [CHR 0xE2, CHR 0x80, CHR 0x99] @ ''t use primary key constraints, you create a chore for yourself:\<newline>'' @
     ''checking for duplicate rows. More often than not, you will need to define\<newline>'' @
     ''a primary key for every table. Use compound keys when they are appropriate.\<newline>''"

definition CheckGenericPrimaryKey_message :: string where
  "CheckGenericPrimaryKey_message =
     [CHR 0xE2, CHR 0x97, CHR 0x8F] @ '' Skip using a generic primary key (id):\<newline>'' @
     ''Adding an id column to every table causes several effects that make its\<newline>'' @
     ''use seem arbitrary. You might end up creating a redundant key or allow\<newline>'' @
     ''duplicate rows if you add this column in a compound key.\<newline>'' @
     ''The name id is so generic that it holds no meaning. This is especially\<newline>'' @
     ''important when you join two tables and they have the same primary\<newline>'' @
     ''key column name.\<newline>''"

definition CheckForeignKeyExists_message :: string where
  "CheckForeignKeyExists_message =
     [CHR 0xE2, CHR 0x97, CHR 0x8F] @ '' Consider adding a foreign key:\<newline>'' @
     ''Are you leaving out the application constraints? Even though it seems at\<newline>'' @
     ''first that skipping foreign key constraints makes your database design\<newline>'' @
     ''simpler, more flexible, or speedier, you pay for this in other ways.\<newline>'' @
     ''It becomes your responsibility to write code to ensure referential integrity\<newline>'' @
     ''manually. Use foreign key constraints to enforce referential integrity.\<newline>'' @
     ''Foreign keys have another feature you can'' @ [CHR 0xE2, CHR 0x80, CHR 0x99] @ ''t mimic using application code:\<newline>'' @
     ''cascading updates to multiple tables. This feature allows you to\<newline>'' @
     ''update or delete the parent row and lets the database takes care of any child\<newline>'' @
     ''rows that reference it. The way you declare the ON UPDATE or ON DELETE clauses\<newline>'' @
     ''in the foreign key constraint allow you to control the result of a cascading\<newline>'' @
     ''operation. Make your database mistake-proof with constraints.\<newline>''"

definition CheckSelectStar_message :: string where
  "CheckSelectStar_message =
     CheckSelectStar_message1 @ ''\<newline>'' @ CheckSelectStar_message2 @ ''\<newline>''
       @ CheckSelectStar_message3"

subsection \<open>Rule functions\<close>

text \<open>
  Each rule returns the diagnostics it emits, or the exception thrown while its pattern
  is built.
\<close>

definition CheckSelectStar :: "Configuration \<Rightarrow> string \<Rightarrow> error + Diagnostic list" where
  "CheckSelectStar state sql_statement =
     (case regex_compile (''(select'' @ [backslash] @ ''s+'' @ [backslash] @ ''*)'') of
        Inl e \<Rightarrow> Inl e
      | Inr pattern \<Rightarrow>
          Inr (CheckPattern state sql_statement pattern LOG_LEVEL_ERROR PATTERN_TYPE_QUERY
                 ''SELECT *'' CheckSelectStar_message True))"

definition CheckMultiValuedAttribute :: "Configuration \<Rightarrow> string \<Rightarrow> error + Diagnostic list" where
  "CheckMultiValuedAttribute state sql_statement =
     (case regex_compile (''(id'' @ [backslash] @ ''s+varchar)|(id'' @ [backslash] @ ''s+text)|(id''
                            @ [backslash] @ ''s+regexp)'') of
        Inl e \<Rightarrow> Inl e
      | Inr pattern \<Rightarrow>
          Inr (CheckPattern state sql_statement pattern LOG_LEVEL_ERROR PATTERN_TYPE_CREATION
                 ''Multi-Valued Attribute'' CheckMultiValuedAttribute_message True))"

definition CheckRecursiveDependency :: "Configuration \<Rightarrow> string \<Rightarrow> error + Diagnostic list" where
  "CheckRecursiveDependency state sql_statement =
     (case GetTableName sql_statement of
        Inl e \<Rightarrow> Inl e
      | Inr table_name \<Rightarrow>
          if table_name = [] then Inr []
          else (case regex_compile (''(references'' @ [backslash] @ ''s+'' @ table_name @ '')'') of
                  Inl e \<Rightarrow> Inl e
                | Inr pattern \<Rightarrow>
                    Inr (CheckPattern state sql_statement pattern LOG_LEVEL_ERROR
                           PATTERN_TYPE_CREATION ''Recursive Dependency''
                           CheckRecursiveDependency_message True)))"

definition CheckPrimaryKeyExists :: "Configuration \<Rightarrow> string \<Rightarrow> error + Diagnostic list" where
  "CheckPrimaryKeyExists state sql_statement =
     (let create_statement = IsCreateStatement sql_statement in
      if create_statement = False then Inr []
      else case regex_compile ''(primary key)'' of
             Inl e \<Rightarrow> Inl e
           | Inr pattern \<Rightarrow>
               Inr (CheckPattern state sql_statement pattern LOG_LEVEL_WARN
                      PATTERN_TYPE_CREATION ''Primary Key Exists''
                      CheckPrimaryKeyExists_message False))"

definition CheckGenericPrimaryKey :: "Configuration \<Rightarrow> string \<Rightarrow> error + Diagnostic list" where
  "CheckGenericPrimaryKey state sql_statement =
     (let create_statement = IsCreateStatement sql_statement in
      if create_statement = False then Inr []
      else case regex_compile (''('' @ [backslash] @ ''s+['' @ [backslash] @ ''(]?id'' @ [backslash]
                                 @ ''s+)|(,id'' @ [backslash] @ ''s+)|('' @ [backslash] @ ''s+id''
                                 @ [backslash] @ ''s+serial)'') of
             Inl e \<Rightarrow> Inl e
           | Inr pattern \<Rightarrow>
               Inr (CheckPattern state sql_statement pattern LOG_LEVEL_ERROR
                      PATTERN_TYPE_CREATION ''Generic Primary Key''
                      CheckGenericPrimaryKey_message True))"

definition CheckForeignKeyExists :: "Configuration \<Rightarrow> string \<Rightarrow> error + Diagnostic list" where
  "CheckForeignKeyExists state sql_statement =
     (let create_statement = IsCreateStatement sql_statement in
      if create_statement = False then Inr []
      else case regex_compile ''(foreign key)'' of
             Inl e \<Rightarrow> Inl e
           | Inr pattern \<Rightarrow>
               Inr (CheckPattern state sql_statement pattern LOG_LEVEL_WARN
                      PATTERN_TYPE_CREATION ''Foreign Key Exists''
                      CheckForeignKeyExists_message False))"

section \<open>The engine\<close>

text \<open>
  Modelled from the spec: the rule registry and \<open>evaluate\<close> (the caller of the rule
  functions, in \<^verbatim>\<open>checker.cpp\<close>) are not in \<^verbatim>\<open>list.cpp\<close>. The specification lists six
  baseline rules, in this order, under a heading that speaks of seven; these six are the
  rule functions that \<^verbatim>\<open>list.cpp\<close> defines, in the order of their definitions, and the
  registry here holds them. \<open>evaluate\<close> runs every rule that the configuration has not
  switched off, in registration order, and appends the diagnostics in that order. An
  exception of a rule is not caught.
\<close>

type_synonym rule = "string \<times> (Configuration \<Rightarrow> string \<Rightarrow> error + Diagnostic list)"

definition registry :: "rule list" where
  "registry =
     [(''SELECT *'', CheckSelectStar),
      (''Multi-Valued Attribute'', CheckMultiValuedAttribute),
      (''Recursive Dependency'', CheckRecursiveDependency),
      (''Primary Key Exists'', CheckPrimaryKeyExists),
      (''Generic Primary Key'', CheckGenericPrimaryKey),
      (''Foreign Key Exists'', CheckForeignKeyExists)]"

definition rule_enabled :: "Configuration \<Rightarrow> string \<Rightarrow> bool" where
  "rule_enabled config title = (title \<notin> set (disabled_rules config))"

fun run_rules :: "rule list \<Rightarrow> Configuration \<Rightarrow> string \<Rightarrow> error + Diagnostic list" where
  "run_rules [] config stmt = Inr []"
| "run_rules ((title, check) # rules) config stmt =
     (if rule_enabled config title then
        (case check config stmt of
           Inl e \<Rightarrow> Inl e
         | Inr ds \<Rightarrow>
             (case run_rules rules config stmt of
                Inl e \<Rightarrow> Inl e
              | Inr ds' \<Rightarrow> Inr (ds @ ds')))
      else run_rules rules config stmt)"

definition evaluate :: "Configuration \<Rightarrow> string \<Rightarrow> error + Diagnostic list" where
  "evaluate config stmt = run_rules registry config stmt"

definition all_enabled :: Configuration where
  "all_enabled = \<lparr>disabled_rules = [], verbose = False\<rparr>"

section \<open>Vocabulary of the properties\<close>

text \<open>
  The notions in which the properties are stated, and the shapes of patterns used in
  their proofs. None of them is part of the program.
\<close>

text \<open>\<open>contains s t\<close>: the text \<open>t\<close> occurs in \<open>s\<close>.\<close>

definition contains :: "string \<Rightarrow> string \<Rightarrow> bool" where
  "contains s t = (\<exists>pre post. s = pre @ t @ post)"

text \<open>
  \<open>contains_spaced s w1 w2\<close>: the text \<open>s\<close> contains \<open>w1\<close>, then one or more whitespace
  characters, then \<open>w2\<close>.
\<close>

definition contains_spaced :: "string \<Rightarrow> string \<Rightarrow> string \<Rightarrow> bool" where
  "contains_spaced s w1 w2 =
     (\<exists>ws. ws \<noteq> [] \<and> (\<forall>c \<in> set ws. isspace c) \<and> contains s (w1 @ ws @ w2))"

text \<open>
  \<open>starts_spaced s w1 w2\<close>: the text \<open>s\<close> begins with \<open>w1\<close>, one or more whitespace characters,
  and \<open>w2\<close>.
\<close>

definition starts_spaced :: "string \<Rightarrow> string \<Rightarrow> string \<Rightarrow> bool" where
  "starts_spaced s w1 w2 =
     (\<exists>ws post. ws \<noteq> [] \<and> (\<forall>c \<in> set ws. isspace c) \<and> s = w1 @ ws @ w2 @ post)"

text \<open>The space character, the only whitespace that \<open>GetTableName\<close> knows.\<close>

definition space :: char where
  "space = CHR '' ''"

definition is_space :: "char \<Rightarrow> bool" where
  "is_space c = (c = space)"

text \<open>
  The table name as the specification words it, for a given notion of whitespace: the
  text after the first occurrence of the keyword, with leading and trailing whitespace
  trimmed and every run of whitespace inside collapsed to one space, up to its first
  whitespace character.
\<close>

fun after_first :: "string \<Rightarrow> string \<Rightarrow> string option" where
  "after_first t [] = (if t = [] then Some [] else None)"
| "after_first t (c # cs) =
     (if take (length t) (c # cs) = t then Some (drop (length t) (c # cs))
      else after_first t cs)"

definition trim :: "(char \<Rightarrow> bool) \<Rightarrow> string \<Rightarrow> string" where
  "trim ws s = rev (dropWhile ws (rev (dropWhile ws s)))"

function collapse :: "(char \<Rightarrow> bool) \<Rightarrow> string \<Rightarrow> string" where
  "collapse ws [] = []"
| "collapse ws (c # cs) =
     (if ws c then CHR '' '' # collapse ws (dropWhile ws cs) else c # collapse ws cs)"
  by pat_completeness auto
termination
  by (relation "measure (\<lambda>(ws, s). length s)")
     (auto simp: le_imp_less_Suc length_dropWhile_le)

definition first_token :: "(char \<Rightarrow> bool) \<Rightarrow> string \<Rightarrow> string" where
  "first_token ws s = takeWhile (\<lambda>c. \<not> ws c) s"

definition extractTableName :: "(char \<Rightarrow> bool) \<Rightarrow> string \<Rightarrow> string" where
  "extractTableName ws stmt =
     (case after_first ''create table'' stmt of
        None \<Rightarrow> []
      | Some rest \<Rightarrow> first_token ws (collapse ws (trim ws rest)))"

text \<open>
  \<open>id\<close>, whitespace, and one of the three type names, anywhere in the text.
\<close>

definition multi_valued :: "string \<Rightarrow> bool" where
  "multi_valued s =
     (contains_spaced s ''id'' ''varchar'' \<or> contains_spaced s ''id'' ''text''
      \<or> contains_spaced s ''id'' ''regexp'')"

text \<open>The characters that are syntax in an ECMAScript pattern.\<close>

definition regex_special :: "char \<Rightarrow> bool" where
  "regex_special c = (c \<in> set ''^$.*+?()[]{}|'' \<or> c = backslash)"

text \<open>The diagnostic of the Recursive Dependency rule on a statement.\<close>

definition recursive_dependency :: "string \<Rightarrow> Diagnostic" where
  "recursive_dependency stmt =
     \<lparr>diag_title = ''Recursive Dependency'', diag_severity = LOG_LEVEL_ERROR,
      diag_category = PATTERN_TYPE_CREATION, diag_message = CheckRecursiveDependency_message,
      diag_statement = stmt\<rparr>"





text \<open>A word, character by character, followed by \<open>k\<close>: the shape the parser gives literal text.\<close>

definition lits :: "string \<Rightarrow> regex \<Rightarrow> regex" where
  "lits w k = foldr (\<lambda>c. Seq (Chr c)) w k"

text \<open>\<open>single P a\<close>: the pattern \<open>a\<close> takes exactly one character, one that satisfies \<open>P\<close>.\<close>

definition single :: "(char \<Rightarrow> bool) \<Rightarrow> regex \<Rightarrow> bool" where
  "single P a = (\<forall>subj p rest caps. rmatch subj a (p, rest, caps) =
     (case rest of [] \<Rightarrow> [] | x # xs \<Rightarrow> if P x then [(Suc p, xs, caps)] else []))"

text \<open>The pattern of \<open>GetTableName\<close>, as the parser reads it.\<close>

definition strip_pattern :: regex where
  "strip_pattern =
     Alt (Seq Bol (Seq (Plus (Chr space)) Eps))
         (Alt (Seq (Plus (Chr space)) (Seq Eol Eps))
              (Seq (Grp 1 (Seq (Chr space) Eps)) (Seq (Plus (Chr space)) Eps)))"

text \<open>Trimming at the end only: what is left to do once the search is past position 0.\<close>

definition trim_right :: "string \<Rightarrow> string" where
  "trim_right s = rev (dropWhile is_space (rev s))"

section \<open>Substrings\<close>

lemma contains_Nil: "contains [] t = (t = [])"
  by (auto simp: contains_def)

lemma contains_Cons:
  "contains (c # cs) t = (take (length t) (c # cs) = t \<or> contains cs t)"
proof
  assume "contains (c # cs) t"
  then obtain pre post where eq: "c # cs = pre @ t @ post"
    by (auto simp: contains_def)
  show "take (length t) (c # cs) = t \<or> contains cs t"
  proof (cases pre)
    case Nil
    with eq show ?thesis by simp
  next
    case (Cons x xs)
    with eq have "cs = xs @ t @ post" by simp
    then show ?thesis by (auto simp: contains_def)
  qed
next
  assume "take (length t) (c # cs) = t \<or> contains cs t"
  then show "contains (c # cs) t"
  proof
    assume "take (length t) (c # cs) = t"
    then have "c # cs = [] @ t @ drop (length t) (c # cs)"
      by (metis append_Nil append_take_drop_id)
    then show ?thesis unfolding contains_def by blast
  next
    assume "contains cs t"
    then obtain pre post where "cs = pre @ t @ post"
      by (auto simp: contains_def)
    then have "c # cs = (c # pre) @ t @ post" by simp
    then show ?thesis unfolding contains_def by blast
  qed
qed

lemma string_find_None: "(string_find s t = None) = (\<not> contains s t)"
  by (induction s) (simp_all add: contains_Nil contains_Cons)

lemma IsCreateStatement_iff: "IsCreateStatement s = contains s ''create table''"
  using string_find_None [of s "''create table''"]
  by (auto simp: IsCreateStatement_def split: option.splits)

section \<open>The creation gate\<close>

text \<open>
  C1. A statement that does not contain \<^verbatim>\<open>create table\<close> gets no diagnostic from any of the
  four creation-gated rules (Primary Key Exists, Generic Primary Key, Foreign Key Exists,
  Recursive Dependency): each returns before its pattern is built or searched, so the
  two rules that report the absence of a pattern do not fire either.
\<close>

theorem creation_gated_rules_skip:
  assumes "\<not> contains sql_statement ''create table''"
  shows "CheckPrimaryKeyExists state sql_statement = Inr []
       \<and> CheckGenericPrimaryKey state sql_statement = Inr []
       \<and> CheckForeignKeyExists state sql_statement = Inr []
       \<and> CheckRecursiveDependency state sql_statement = Inr []"
proof -
  from assms have gate: "IsCreateStatement sql_statement = False"
    by (simp add: IsCreateStatement_iff)
  from assms have "string_find sql_statement ''create table'' = None"
    by (simp add: string_find_None)
  then have name: "GetTableName sql_statement = Inr []"
    by (simp add: GetTableName_def)
  show ?thesis
    by (simp add: CheckPrimaryKeyExists_def CheckGenericPrimaryKey_def
        CheckForeignKeyExists_def CheckRecursiveDependency_def gate name)
qed

text \<open>
  On \<^verbatim>\<open>select * from Users\<close> the four rules are silent, although the pattern check of
  Primary Key Exists, had it been reached, would have reported the absence of
  \<open>primary key\<close>.
\<close>

theorem creation_gated_rules_skip_witness:
  "\<not> contains ''select * from Users'' ''create table''
   \<and> CheckPrimaryKeyExists all_enabled ''select * from Users'' = Inr []
   \<and> CheckGenericPrimaryKey all_enabled ''select * from Users'' = Inr []
   \<and> CheckForeignKeyExists all_enabled ''select * from Users'' = Inr []
   \<and> CheckRecursiveDependency all_enabled ''select * from Users'' = Inr []
   \<and> (case regex_compile ''(primary key)'' of
         Inl e \<Rightarrow> False
       | Inr pattern \<Rightarrow>
           CheckPattern all_enabled ''select * from Users'' pattern LOG_LEVEL_WARN
             PATTERN_TYPE_CREATION ''Primary Key Exists'' CheckPrimaryKeyExists_message False
           \<noteq> [])"
proof -
  have "string_find ''select * from Users'' ''create table'' = None"
    by code_simp
  then have h: "\<not> contains ''select * from Users'' ''create table''"
    using string_find_None by blast
  have ungated: "(case regex_compile ''(primary key)'' of
         Inl e \<Rightarrow> False
       | Inr pattern \<Rightarrow>
           CheckPattern all_enabled ''select * from Users'' pattern LOG_LEVEL_WARN
             PATTERN_TYPE_CREATION ''Primary Key Exists'' CheckPrimaryKeyExists_message False
           \<noteq> [])"
    by code_simp
  from creation_gated_rules_skip [OF h, of all_enabled] h ungated show ?thesis
    by blast
qed

section \<open>Literal words and runs of a character class\<close>

lemma rmatch_lits:
  "rmatch subj (lits w k) (p, rest, caps) =
     (if take (length w) rest = w then rmatch subj k (p + length w, drop (length w) rest, caps)
      else [])"
proof (induction w arbitrary: p rest)
  case Nil
  then show ?case by (simp add: lits_def)
next
  case (Cons c w)
  have step: "lits (c # w) k = Seq (Chr c) (lits w k)"
    by (simp add: lits_def)
  show ?case
  proof (cases rest)
    case Nil
    then show ?thesis by (simp add: step)
  next
    case (Cons x xs)
    then show ?thesis using Cons.IH [of "Suc p" xs] by (simp add: step)
  qed
qed

lemma single_Chr: "single (\<lambda>x. x = c) (Chr c)"
  by (simp add: single_def)

lemma single_Cls: "single (class_matches neg items) (Cls neg items)"
  by (simp add: single_def)

lemma upt_shift: "[Suc a..<Suc b] = map Suc [a..<b]"
  by (simp add: map_Suc_upt)

lemma rmatch_Star_single:
  assumes "single P a"
  shows "rmatch subj (Star a) (p, rest, caps) =
           map (\<lambda>j. (p + j, drop j rest, caps)) (rev [0..<Suc (length (takeWhile P rest))])"
proof (induction rest arbitrary: p)
  case Nil
  from assms have "rmatch subj a (p, [], caps) = []" by (simp add: single_def)
  then show ?case by (subst rmatch.simps(9)) simp
next
  case (Cons x xs)
  show ?case
  proof (cases "P x")
    case False
    with assms have "rmatch subj a (p, x # xs, caps) = []" by (simp add: single_def)
    with False show ?thesis by (subst rmatch.simps(9)) simp
  next
    case True
    with assms have one: "rmatch subj a (p, x # xs, caps) = [(Suc p, xs, caps)]"
      by (simp add: single_def)
    have "rmatch subj (Star a) (p, x # xs, caps) =
            rmatch subj (Star a) (Suc p, xs, caps) @ [(p, x # xs, caps)]"
      by (subst rmatch.simps(9)) (simp add: one remaining_def)
    also have "\<dots> = map (\<lambda>j. (Suc p + j, drop j xs, caps))
                        (rev [0..<Suc (length (takeWhile P xs))]) @ [(p, x # xs, caps)]"
      by (simp only: Cons.IH)
    also have "\<dots> = map (\<lambda>j. (p + j, drop j (x # xs), caps))
                        (rev [0..<Suc (length (takeWhile P (x # xs)))])"
    proof -
      let ?n = "length (takeWhile P xs)"
      have "[0..<Suc (Suc ?n)] = 0 # map Suc [0..<Suc ?n]"
        by (metis upt_conv_Cons upt_shift zero_less_Suc)
      with True show ?thesis by (simp add: rev_map comp_def del: upt_Suc)
    qed
    finally show ?thesis .
  qed
qed

lemma rmatch_Plus_single:
  assumes "single P a"
  shows "rmatch subj (Plus a) (p, rest, caps) =
           map (\<lambda>j. (p + j, drop j rest, caps)) (rev [1..<Suc (length (takeWhile P rest))])"
proof (cases rest)
  case Nil
  with assms show ?thesis by (simp add: single_def)
next
  case (Cons x xs)
  show ?thesis
  proof (cases "P x")
    case False
    with assms Cons show ?thesis by (simp add: single_def)
  next
    case True
    with assms Cons have "rmatch subj (Plus a) (p, rest, caps) = rmatch subj (Star a) (Suc p, xs, caps)"
      by (simp add: single_def)
    also have "\<dots> = map (\<lambda>j. (Suc p + j, drop j xs, caps))
                        (rev [0..<Suc (length (takeWhile P xs))])"
      by (rule rmatch_Star_single [OF assms])
    also have "\<dots> = map (\<lambda>j. (p + j, drop j rest, caps))
                        (rev [1..<Suc (length (takeWhile P rest))])"
    proof -
      let ?n = "length (takeWhile P xs)"
      have "[1..<Suc (Suc ?n)] = map Suc [0..<Suc ?n]"
        using upt_shift [of 0 "Suc ?n"] by simp
      with True Cons show ?thesis by (simp add: rev_map comp_def del: upt_Suc)
    qed
    finally show ?thesis .
  qed
qed

lemma take_eq_iff: "(take (length w) s = w) = (\<exists>post. s = w @ post)"
  by (metis append_eq_conv_conj append_take_drop_id)

lemma takeWhile_run:
  assumes "\<forall>c \<in> set ws. P c"
  shows "length ws \<le> length (takeWhile P (ws @ post))"
  using assms by (induction ws) auto

lemma gap_iff:
  "(\<exists>j. 1 \<le> j \<and> j \<le> length (takeWhile P s) \<and> take (length w) (drop j s) = w)
     = (\<exists>ws post. ws \<noteq> [] \<and> (\<forall>c \<in> set ws. P c) \<and> s = ws @ w @ post)"
proof
  assume "\<exists>j. 1 \<le> j \<and> j \<le> length (takeWhile P s) \<and> take (length w) (drop j s) = w"
  then obtain j where j: "1 \<le> j" "j \<le> length (takeWhile P s)"
    and w: "take (length w) (drop j s) = w"
    by blast
  from w obtain post where post: "drop j s = w @ post"
    by (auto simp: take_eq_iff)
  have "take j s = take j (takeWhile P s)"
    using j(2) by (metis takeWhile_dropWhile_id take_append append_Nil2 diff_is_0_eq take0)
  then have allP: "\<forall>c \<in> set (take j s). P c"
    by (metis in_set_takeD set_takeWhileD)
  have len: "j \<le> length s"
    using j(2) length_takeWhile_le [of P s] by simp
  with j(1) have ne: "take j s \<noteq> []" by auto
  have "s = take j s @ w @ post"
    using post by (metis append_take_drop_id)
  with ne allP show "\<exists>ws post. ws \<noteq> [] \<and> (\<forall>c \<in> set ws. P c) \<and> s = ws @ w @ post"
    by blast
next
  assume "\<exists>ws post. ws \<noteq> [] \<and> (\<forall>c \<in> set ws. P c) \<and> s = ws @ w @ post"
  then obtain ws post where ws: "ws \<noteq> []" "\<forall>c \<in> set ws. P c" and s: "s = ws @ w @ post"
    by blast
  have "1 \<le> length ws" using ws(1) by (cases ws) auto
  moreover have "length ws \<le> length (takeWhile P s)"
    unfolding s by (rule takeWhile_run [OF ws(2)])
  moreover have "take (length w) (drop (length ws) s) = w"
    by (simp add: s)
  ultimately show "\<exists>j. 1 \<le> j \<and> j \<le> length (takeWhile P s) \<and> take (length w) (drop j s) = w"
    by blast
qed

lemma concat_map_nonempty: "(concat (map f xs) \<noteq> []) = (\<exists>x \<in> set xs. f x \<noteq> [])"
  by (induction xs) auto

lemma rmatch_word_gap_word:
  assumes "single P a"
  shows "(rmatch subj (lits w1 (Seq (Plus a) (lits w2 Eps))) (p, rest, caps) \<noteq> [])
           = (\<exists>ws post. ws \<noteq> [] \<and> (\<forall>c \<in> set ws. P c) \<and> rest = w1 @ ws @ w2 @ post)"
proof (cases "take (length w1) rest = w1")
  case False
  then have "\<not> (\<exists>post. rest = w1 @ post)" by (simp add: take_eq_iff)
  then have "\<not> (\<exists>ws post. rest = w1 @ ws @ w2 @ post)" by metis
  with False show ?thesis by (auto simp: rmatch_lits)
next
  case True
  then obtain r1 where rest: "rest = w1 @ r1" by (auto simp: take_eq_iff)
  let ?n = "length (takeWhile P r1)"
  have "(rmatch subj (lits w1 (Seq (Plus a) (lits w2 Eps))) (p, rest, caps) \<noteq> [])
          = (\<exists>j. 1 \<le> j \<and> j \<le> ?n \<and> take (length w2) (drop j r1) = w2)"
  proof -
    have "rmatch subj (lits w1 (Seq (Plus a) (lits w2 Eps))) (p, rest, caps) =
            concat (map (rmatch subj (lits w2 Eps))
                        (map (\<lambda>j. (p + length w1 + j, drop j r1, caps)) (rev [1..<Suc ?n])))"
      by (simp add: rmatch_lits rest rmatch_Plus_single [OF assms]
          del: upt_Suc rmatch.simps(10))
    then have "(rmatch subj (lits w1 (Seq (Plus a) (lits w2 Eps))) (p, rest, caps) \<noteq> [])
                 = (\<exists>j \<in> {1..<Suc ?n}.
                      rmatch subj (lits w2 Eps) (p + length w1 + j, drop j r1, caps) \<noteq> [])"
      by (simp add: concat_map_nonempty del: upt_Suc)
    also have "\<dots> = (\<exists>j. 1 \<le> j \<and> j \<le> ?n \<and> take (length w2) (drop j r1) = w2)"
      by (auto simp: rmatch_lits)
    finally show ?thesis .
  qed
  also have "\<dots> = (\<exists>ws post. ws \<noteq> [] \<and> (\<forall>c \<in> set ws. P c) \<and> r1 = ws @ w2 @ post)"
    by (rule gap_iff)
  also have "\<dots> = (\<exists>ws post. ws \<noteq> [] \<and> (\<forall>c \<in> set ws. P c) \<and> rest = w1 @ ws @ w2 @ post)"
    by (simp add: rest)
  finally show ?thesis .
qed

lemma all_le_Suc: "(\<forall>i \<le> Suc n. Q i) = (Q 0 \<and> (\<forall>i \<le> n. Q (Suc i)))"
  by (metis Suc_le_mono le0 not0_implies_Suc)

lemma regex_search_from_None:
  "(regex_search_from subj r p s = None) = (\<forall>i \<le> length s. rmatch subj r (p + i, drop i s, []) = [])"
proof (induction s arbitrary: p)
  case Nil
  then show ?case by (simp split: list.splits)
next
  case (Cons x xs)
  show ?case
    by (simp add: Cons.IH all_le_Suc split: list.splits)
qed

lemma regex_search_iff:
  "regex_search r s = (\<exists>i \<le> length s. rmatch s r (i, drop i s, []) \<noteq> [])"
  using regex_search_from_None [of s r 0 s] by (auto simp: regex_search_def)

lemma regex_search_Alt: "regex_search (Alt a b) s = (regex_search a s \<or> regex_search b s)"
  by (auto simp: regex_search_iff)

lemma rmatch_group_nonempty: "(rmatch subj (Seq (Grp n r) Eps) st \<noteq> []) = (rmatch subj r st \<noteq> [])"
  by (cases st; cases "rmatch subj r st") auto

lemma contains_drop: "contains s t = (\<exists>i \<le> length s. \<exists>post. drop i s = t @ post)"
proof
  assume "contains s t"
  then obtain pre post where "s = pre @ t @ post" by (auto simp: contains_def)
  then have "length pre \<le> length s" and "drop (length pre) s = t @ post" by simp_all
  then show "\<exists>i \<le> length s. \<exists>post. drop i s = t @ post" by blast
next
  assume "\<exists>i \<le> length s. \<exists>post. drop i s = t @ post"
  then obtain i post where "drop i s = t @ post" by blast
  then have "s = take i s @ t @ post" by (metis append_take_drop_id)
  then show "contains s t" unfolding contains_def by blast
qed

lemma single_space: "single isspace (Cls False [CI_space])"
  by (simp add: single_def class_matches_def split: list.splits)

lemma regex_search_word_gap_word:
  "regex_search (Seq (Grp n (lits w1 (Seq (Plus (Cls False [CI_space])) (lits w2 Eps)))) Eps) s
     = contains_spaced s w1 w2"
  unfolding regex_search_iff rmatch_group_nonempty rmatch_word_gap_word [OF single_space]
    contains_spaced_def contains_drop
  by auto

section \<open>The table name\<close>

lemma format_dollar_1: "regex_format ''$1'' pre m suf caps = capture 1 m caps"
  by (simp add: isdigit_def digit_value_def)

lemma regex_replace_from_skip:
  assumes "rmatch subj r (p, c # cs, []) = []"
  shows "regex_replace_from subj r ''$1'' p (c # cs) =
           (case regex_replace_from subj r ''$1'' (Suc p) cs of
              Inl e \<Rightarrow> Inl e
            | Inr out \<Rightarrow> Inr (c # out))"
proof (cases "regex_search_from subj r (Suc p) cs")
  case None
  with assms show ?thesis
    by (subst regex_replace_from.simps, subst (2) regex_replace_from.simps) simp
next
  case (Some m)
  then obtain b e rest' caps where m: "m = (b, e, rest', caps)"
    by (cases m) auto
  from regex_search_from_bounds [OF Some [unfolded m]] have b: "Suc p \<le> b"
    by simp
  then have pre: "take (b - p) (c # cs) = c # take (b - Suc p) cs"
    and post: "drop (b - p) (c # cs) = drop (b - Suc p) cs"
    by (simp_all add: Suc_diff_le take_Cons' drop_Cons')
  show ?thesis
    using assms Some m
    by (subst regex_replace_from.simps, subst (2) regex_replace_from.simps)
       (simp add: pre post format_dollar_1 del: regex_format.simps split: sum.splits)
qed

lemma regex_replace_from_match:
  assumes "rmatch subj r (p, rest, []) = (e, rest', caps) # ms" and "p < e"
  shows "regex_replace_from subj r ''$1'' p rest =
           (case regex_replace_from subj r ''$1'' e rest' of
              Inl err \<Rightarrow> Inl err
            | Inr out \<Rightarrow> Inr (capture 1 (take (e - p) rest) caps @ out))"
proof -
  have "regex_search_from subj r p rest = Some (p, e, rest', caps)"
    using assms(1) by (cases rest) simp_all
  then show ?thesis
    using assms(2)
    by (subst regex_replace_from.simps)
       (simp add: format_dollar_1 del: regex_format.simps split: sum.splits)
qed

lemma regex_replace_from_Nil:
  assumes "rmatch subj r (p, [], []) = []"
  shows "regex_replace_from subj r fmt p [] = Inr []"
  using assms by (subst regex_replace_from.simps) simp

lemma compile_strip_pattern: "regex_compile ''^ +| +$|( ) +'' = Inr strip_pattern"
  by code_simp

lemma concat_map_Eps: "concat (map (rmatch subj Eps) xs) = xs"
  by (induction xs) auto

lemma rmatch_Seq_Eps: "rmatch subj (Seq a Eps) st = rmatch subj a st"
  by (simp add: concat_map_Eps)

lemma concat_map_if: "concat (map (\<lambda>x. if P x then [x] else []) xs) = filter P xs"
  by (induction xs) auto

lemma takeWhile_replicate:
  "tail = [] \<or> hd tail \<noteq> c \<Longrightarrow>
     takeWhile (\<lambda>x. x = c) (replicate k c @ tail) = replicate k c"
  by (induction k) (auto simp: takeWhile_eq_Nil_iff)

lemma rmatch_Bol_then:
  "rmatch subj (Seq Bol (Seq a Eps)) (p, rest, caps) = (if p = 0 then rmatch subj a (p, rest, caps) else [])"
  by (simp add: concat_map_Eps del: rmatch.simps(10))

lemma rmatch_then_Eol:
  "rmatch subj (Seq a (Seq Eol Eps)) st = filter (\<lambda>st'. fst (snd st') = []) (rmatch subj a st)"
proof -
  have "rmatch subj (Seq Eol Eps) = (\<lambda>st'. if fst (snd st') = [] then [st'] else [])"
    by (rule ext) auto
  then have "rmatch subj (Seq a (Seq Eol Eps)) st =
               concat (map (\<lambda>st'. if fst (snd st') = [] then [st'] else []) (rmatch subj a st))"
    by (simp del: rmatch.simps(10))
  then show ?thesis
    by (simp only: concat_map_if)
qed

lemma rmatch_captured_char_then:
  "rmatch subj (Seq (Grp n (Seq (Chr c) Eps)) (Seq a Eps)) (p, rest, caps) =
     (case rest of
        [] \<Rightarrow> []
      | x # xs \<Rightarrow> if x = c then rmatch subj a (Suc p, xs, (n, [c]) # caps) else [])"
  by (cases rest) (simp_all add: concat_map_Eps del: rmatch.simps(10))

lemma rmatch_strip_pattern:
  "rmatch subj strip_pattern (p, rest, []) =
     (if p = 0 then rmatch subj (Plus (Chr space)) (p, rest, []) else [])
     @ filter (\<lambda>st'. fst (snd st') = []) (rmatch subj (Plus (Chr space)) (p, rest, []))
     @ (case rest of
          [] \<Rightarrow> []
        | x # xs \<Rightarrow>
            if x = space then rmatch subj (Plus (Chr space)) (Suc p, xs, [(1, [space])]) else [])"
  unfolding strip_pattern_def rmatch.simps(8) rmatch_Bol_then rmatch_then_Eol
    rmatch_captured_char_then
  by simp

lemma spaces_run:
  assumes "tail = [] \<or> hd tail \<noteq> space"
  shows "rmatch subj (Plus (Chr space)) (p, replicate k space @ tail, caps) =
           map (\<lambda>j. (p + j, replicate (k - j) space @ tail, caps)) (rev [1..<Suc k])"
proof -
  have "takeWhile (\<lambda>x. x = space) (replicate k space @ tail) = replicate k space"
    using assms by (rule takeWhile_replicate)
  then have "rmatch subj (Plus (Chr space)) (p, replicate k space @ tail, caps) =
               map (\<lambda>j. (p + j, drop j (replicate k space @ tail), caps)) (rev [1..<Suc k])"
    using rmatch_Plus_single [OF single_Chr, of subj space p "replicate k space @ tail" caps]
    by simp
  also have "\<dots> = map (\<lambda>j. (p + j, replicate (k - j) space @ tail, caps)) (rev [1..<Suc k])"
    by (rule map_cong) auto
  finally show ?thesis .
qed

lemma rev_upt_from_1: "0 < k \<Longrightarrow> rev [1..<Suc k] = k # rev [1..<k]"
  by simp

lemma spaces_run_hd:
  assumes "tail = [] \<or> hd tail \<noteq> space" and "0 < k"
  shows "\<exists>ms. rmatch subj (Plus (Chr space)) (p, replicate k space @ tail, caps) =
           (p + k, tail, caps) # ms"
  unfolding spaces_run [OF assms(1)] rev_upt_from_1 [OF assms(2)] by simp

lemma spaces_run_no_eol:
  assumes "tail \<noteq> []" and "hd tail \<noteq> space"
  shows "filter (\<lambda>st'. fst (snd st') = [])
           (rmatch subj (Plus (Chr space)) (p, replicate k space @ tail, caps)) = []"
proof -
  have t: "tail = [] \<or> hd tail \<noteq> space"
    using assms(2) by simp
  show ?thesis
    unfolding spaces_run [OF t] using assms(1) by (simp add: filter_empty_conv)
qed

lemma spaces_run_none:
  "rest = [] \<or> hd rest \<noteq> space \<Longrightarrow> rmatch subj (Plus (Chr space)) (p, rest, caps) = []"
  by (cases rest) auto

lemma strip_no_match_nonspace:
  assumes "rest = [] \<or> hd rest \<noteq> space"
  shows "rmatch subj strip_pattern (p, rest, []) = []"
  unfolding rmatch_strip_pattern using assms
  by (cases rest) (simp_all add: spaces_run_none del: rmatch.simps(10))

lemma strip_match_bol:
  assumes "0 < k" and "tail = [] \<or> hd tail \<noteq> space"
  shows "\<exists>ms. rmatch subj strip_pattern (0, replicate k space @ tail, []) = (k, tail, []) # ms"
proof -
  from spaces_run_hd [OF assms(2,1), of subj 0 "[]"] obtain ms where
    "rmatch subj (Plus (Chr space)) (0, replicate k space @ tail, []) = (k, tail, []) # ms"
    by auto
  then show ?thesis
    unfolding rmatch_strip_pattern by simp
qed

lemma strip_match_eol:
  assumes "0 < k" and "0 < p"
  shows "\<exists>ms. rmatch subj strip_pattern (p, replicate k space, []) = (p + k, [], []) # ms"
proof -
  from spaces_run_hd [of "[]" k subj p "[]"] assms(1) obtain ms where
    "rmatch subj (Plus (Chr space)) (p, replicate k space, []) = (p + k, [], []) # ms"
    by auto
  then show ?thesis
    unfolding rmatch_strip_pattern using assms(2) by simp
qed

lemma strip_match_run:
  assumes "2 \<le> k" and "0 < p" and "tail \<noteq> []" and "hd tail \<noteq> space"
  shows "\<exists>ms. rmatch subj strip_pattern (p, replicate k space @ tail, []) =
           (p + k, tail, [(1, [space])]) # ms"
proof -
  from assms(1) obtain k' where k: "k = Suc k'" and k': "0 < k'"
    by (cases k) auto
  have t: "tail = [] \<or> hd tail \<noteq> space"
    using assms(4) by simp
  from spaces_run_hd [OF t k', of subj "Suc p" "[(1, [space])]"] obtain ms where
    "rmatch subj (Plus (Chr space)) (Suc p, replicate k' space @ tail, [(1, [space])]) =
       (p + k, tail, [(1, [space])]) # ms"
    by (auto simp: k)
  then show ?thesis
    unfolding rmatch_strip_pattern spaces_run_no_eol [OF assms(3,4)]
    using assms(2) by (simp add: k)
qed

lemma strip_no_match_single:
  assumes "0 < p" and "tail \<noteq> []" and "hd tail \<noteq> space"
  shows "rmatch subj strip_pattern (p, space # tail, []) = []"
proof -
  have t: "tail = [] \<or> hd tail \<noteq> space"
    using assms(3) by simp
  have "filter (\<lambda>st'. fst (snd st') = []) (rmatch subj (Plus (Chr space)) (p, space # tail, [])) = []"
    using spaces_run_no_eol [OF assms(2,3), of subj p 1 "[]"] by simp
  then show ?thesis
    unfolding rmatch_strip_pattern using assms(1)
    by (simp add: spaces_run_none [OF t] del: rmatch.simps(10))
qed

lemma trim_right_Nil: "trim_right [] = []"
  by (simp add: trim_right_def)

lemma trim_right_Cons:
  "trim_right (x # xs) = (if trim_right xs = [] \<and> x = space then [] else x # trim_right xs)"
proof (cases "\<forall>y \<in> set (rev xs). is_space y")
  case True
  then have "dropWhile is_space (rev xs @ [x]) = dropWhile is_space [x]"
    by (intro dropWhile_append2) auto
  moreover from True have "dropWhile is_space (rev xs) = []"
    by simp
  ultimately show ?thesis
    by (simp add: trim_right_def is_space_def)
next
  case False
  then obtain y where y: "y \<in> set (rev xs)" "\<not> is_space y"
    by blast
  then have "dropWhile is_space (rev xs @ [x]) = dropWhile is_space (rev xs) @ [x]"
    by (rule dropWhile_append1)
  moreover from y have "dropWhile is_space (rev xs) \<noteq> []"
    by auto
  ultimately show ?thesis
    by (simp add: trim_right_def)
qed

lemma trim_right_spaces: "trim_right (replicate k space) = []"
  by (induction k) (simp_all add: trim_right_Nil trim_right_Cons)

lemma trim_right_run:
  assumes "tail \<noteq> []" and "hd tail \<noteq> space"
  shows "trim_right (replicate k space @ tail) = replicate k space @ trim_right tail"
    and "trim_right tail \<noteq> []" and "hd (trim_right tail) \<noteq> space"
proof -
  from assms obtain c cs where tail: "tail = c # cs" and c: "c \<noteq> space"
    by (cases tail) auto
  then show ne: "trim_right tail \<noteq> []" and "hd (trim_right tail) \<noteq> space"
    by (simp_all add: trim_right_Cons)
  show "trim_right (replicate k space @ tail) = replicate k space @ trim_right tail"
    using ne by (induction k) (simp_all add: trim_right_Cons)
qed

lemma collapse_run:
  assumes "xs \<noteq> []" and "hd xs \<noteq> space" and "0 < k"
  shows "collapse is_space (replicate k space @ xs) = space # collapse is_space xs"
proof -
  from assms(3) obtain k' where k: "k = Suc k'"
    by (cases k) auto
  have "dropWhile is_space (replicate k' space @ xs) = xs"
    using assms(1,2) by (induction k') (auto simp: is_space_def dropWhile_eq_self_iff)
  then show ?thesis
    by (simp add: k is_space_def space_def)
qed

lemma split_run:
  obtains k tail where "s = replicate k space @ tail" and "tail = [] \<or> hd tail \<noteq> space"
proof
  show "s = replicate (length (takeWhile is_space s)) space @ dropWhile is_space s"
  proof -
    have "takeWhile is_space s = replicate (length (takeWhile is_space s)) space"
      by (induction s) (auto simp: is_space_def)
    then show ?thesis
      by (metis takeWhile_dropWhile_id)
  qed
  show "dropWhile is_space s = [] \<or> hd (dropWhile is_space s) \<noteq> space"
    using hd_dropWhile [of is_space s] by (auto simp: is_space_def)
qed

lemma capture_1:
  "capture 1 m [] = []" "capture 1 m [(1, w)] = w"
  "capture (Suc 0) m [] = []" "capture (Suc 0) m [(Suc 0, w)] = w"
  by (simp_all add: capture_def)

lemma strip_replace_inner:
  "0 < p \<Longrightarrow>
     regex_replace_from subj strip_pattern ''$1'' p rest = Inr (collapse is_space (trim_right rest))"
proof (induction "length rest" arbitrary: rest p rule: less_induct)
  case less
  obtain k tail where rest: "rest = replicate k space @ tail"
    and tail: "tail = [] \<or> hd tail \<noteq> space"
    by (rule split_run)
  show ?case
  proof (cases "k = 0")
    case True
    show ?thesis
    proof (cases tail)
      case Nil
      with True rest show ?thesis
        by (simp add: regex_replace_from_Nil strip_no_match_nonspace trim_right_Nil)
    next
      case (Cons c cs)
      with tail have c: "c \<noteq> space" by simp
      have "rmatch subj strip_pattern (p, c # cs, []) = []"
        using c by (intro strip_no_match_nonspace) simp
      then have "regex_replace_from subj strip_pattern ''$1'' p (c # cs) =
                   (case regex_replace_from subj strip_pattern ''$1'' (Suc p) cs of
                      Inl e \<Rightarrow> Inl e | Inr out \<Rightarrow> Inr (c # out))"
        by (rule regex_replace_from_skip)
      also have "regex_replace_from subj strip_pattern ''$1'' (Suc p) cs =
                   Inr (collapse is_space (trim_right cs))"
        using True rest Cons by (intro less.hyps) simp_all
      finally show ?thesis
        using True rest Cons c by (simp add: trim_right_Cons is_space_def)
    qed
  next
    case False
    then have k: "0 < k" by simp
    show ?thesis
    proof (cases "tail = []")
      case True
      from strip_match_eol [OF k less.prems] obtain ms where
        "rmatch subj strip_pattern (p, replicate k space, []) = (p + k, [], []) # ms"
        by blast
      then have "regex_replace_from subj strip_pattern ''$1'' p (replicate k space) =
                   (case regex_replace_from subj strip_pattern ''$1'' (p + k) [] of
                      Inl err \<Rightarrow> Inl err
                    | Inr out \<Rightarrow> Inr (capture 1 (take (p + k - p) (replicate k space)) [] @ out))"
        using k by (intro regex_replace_from_match) simp_all
      then show ?thesis
        using True rest
        by (simp add: regex_replace_from_Nil strip_no_match_nonspace capture_1
            trim_right_spaces)
    next
      case False
      with tail have hd: "hd tail \<noteq> space" by simp
      have inner: "regex_replace_from subj strip_pattern ''$1'' q tail =
                     Inr (collapse is_space (trim_right tail))" if "0 < q" for q
        using k rest that by (intro less.hyps) simp_all
      have rhs: "collapse is_space (trim_right rest) =
                   space # collapse is_space (trim_right tail)"
        unfolding rest trim_right_run(1) [OF False hd]
        by (rule collapse_run [OF trim_right_run(2,3) [OF False hd] k])
      show ?thesis
      proof (cases "k = 1")
        case True
        have "rmatch subj strip_pattern (p, space # tail, []) = []"
          using less.prems False hd by (rule strip_no_match_single)
        then have "regex_replace_from subj strip_pattern ''$1'' p (space # tail) =
                     (case regex_replace_from subj strip_pattern ''$1'' (Suc p) tail of
                        Inl e \<Rightarrow> Inl e | Inr out \<Rightarrow> Inr (space # out))"
          by (rule regex_replace_from_skip)
        then have "regex_replace_from subj strip_pattern ''$1'' p rest =
                     Inr (space # collapse is_space (trim_right tail))"
          using True rest by (simp add: inner)
        then show ?thesis
          unfolding rhs .
      next
        case False
        with k have k2: "2 \<le> k" by simp
        from strip_match_run [OF k2 less.prems \<open>tail \<noteq> []\<close> hd] obtain ms where
          "rmatch subj strip_pattern (p, rest, []) = (p + k, tail, [(1, [space])]) # ms"
          unfolding rest by blast
        then have "regex_replace_from subj strip_pattern ''$1'' p rest =
                     (case regex_replace_from subj strip_pattern ''$1'' (p + k) tail of
                        Inl err \<Rightarrow> Inl err
                      | Inr out \<Rightarrow> Inr (capture 1 (take (p + k - p) rest) [(1, [space])] @ out))"
          using k by (intro regex_replace_from_match) simp_all
        then have "regex_replace_from subj strip_pattern ''$1'' p rest =
                     Inr (space # collapse is_space (trim_right tail))"
          using k by (simp add: inner capture_1)
        then show ?thesis
          unfolding rhs .
      qed
    qed
  qed
qed

lemma strip_replace:
  "regex_replace rest strip_pattern ''$1'' = Inr (collapse is_space (trim is_space rest))"
proof -
  obtain k tail where rest: "rest = replicate k space @ tail"
    and tail: "tail = [] \<or> hd tail \<noteq> space"
    by (rule split_run)
  have drop: "dropWhile is_space rest = tail"
    unfolding rest using tail
    by (induction k) (auto simp: is_space_def dropWhile_eq_self_iff)
  have rhs: "trim is_space rest = trim_right tail"
    by (simp add: trim_def trim_right_def drop)
  show ?thesis
  proof (cases "k = 0")
    case True
    show ?thesis
    proof (cases tail)
      case Nil
      with True rest show ?thesis
        by (simp add: regex_replace_def regex_replace_from_Nil strip_no_match_nonspace
            trim_def)
    next
      case (Cons c cs)
      with tail have c: "c \<noteq> space" by simp
      have "rmatch rest strip_pattern (0, c # cs, []) = []"
        using c by (intro strip_no_match_nonspace) simp
      then have "regex_replace_from rest strip_pattern ''$1'' 0 (c # cs) =
                   (case regex_replace_from rest strip_pattern ''$1'' (Suc 0) cs of
                      Inl e \<Rightarrow> Inl e | Inr out \<Rightarrow> Inr (c # out))"
        by (rule regex_replace_from_skip)
      moreover have "trim is_space (c # cs) = trim_right (c # cs)"
        using rhs True rest Cons by simp
      ultimately show ?thesis
        using True rest Cons c
        by (simp add: regex_replace_def strip_replace_inner trim_right_Cons is_space_def)
    qed
  next
    case False
    then have k: "0 < k" by simp
    from strip_match_bol [OF k tail] obtain ms where
      "rmatch rest strip_pattern (0, rest, []) = (k, tail, []) # ms"
      unfolding rest by blast
    then have "regex_replace_from rest strip_pattern ''$1'' 0 rest =
                 (case regex_replace_from rest strip_pattern ''$1'' k tail of
                    Inl err \<Rightarrow> Inl err
                  | Inr out \<Rightarrow> Inr (capture 1 (take (k - 0) rest) [] @ out))"
      using k by (intro regex_replace_from_match) simp_all
    then have "regex_replace rest strip_pattern ''$1'' =
                 Inr (collapse is_space (trim_right tail))"
      using k by (simp add: regex_replace_def strip_replace_inner capture_1)
    then show ?thesis
      unfolding rhs .
  qed
qed

lemma string_find_bound:
  "string_find s t = Some i \<Longrightarrow> i + length t \<le> length s"
proof (induction s arbitrary: i)
  case Nil
  then show ?case by (simp split: if_splits)
next
  case (Cons c cs)
  show ?case
  proof (cases "take (length t) (c # cs) = t")
    case True
    then have "length (take (length t) (c # cs)) = length t"
      by simp
    then have "length t \<le> length (c # cs)"
      by simp
    with True Cons.prems show ?thesis by simp
  next
    case False
    with Cons.prems obtain j where "string_find cs t = Some j" and "i = Suc j"
      by auto
    with Cons.IH show ?thesis by simp
  qed
qed

lemma after_first_string_find:
  "after_first t s = map_option (\<lambda>i. drop (i + length t) s) (string_find s t)"
  by (induction s) (simp_all add: option.map_comp comp_def)

lemma after_first_None: "(after_first t s = None) = (\<not> contains s t)"
  by (simp add: after_first_string_find string_find_None)

lemma after_first_Some:
  "after_first t s = Some rest \<Longrightarrow>
     \<exists>pre. s = pre @ t @ rest \<and> (\<forall>pre' post'. s = pre' @ t @ post' \<longrightarrow> length pre \<le> length pre')"
proof (induction s)
  case Nil
  then show ?case by (simp split: if_splits)
next
  case (Cons c cs)
  show ?case
  proof (cases "take (length t) (c # cs) = t")
    case True
    with Cons.prems have "c # cs = [] @ t @ rest"
      by (metis after_first.simps(2) append_Nil append_take_drop_id option.inject)
    then show ?thesis by (metis le0 list.size(3))
  next
    case False
    with Cons.prems have "after_first t cs = Some rest" by simp
    from Cons.IH [OF this] obtain pre where pre: "cs = pre @ t @ rest"
      and least: "\<forall>pre' post'. cs = pre' @ t @ post' \<longrightarrow> length pre \<le> length pre'"
      by blast
    have "length (c # pre) \<le> length pre'" if "c # cs = pre' @ t @ post'" for pre' post'
    proof (cases pre')
      case Nil
      with that have "take (length t) (c # cs) = t" by simp
      with False show ?thesis by simp
    next
      case (Cons x xs)
      with that have "cs = xs @ t @ post'" by simp
      with least have "length pre \<le> length xs" by blast
      with Cons show ?thesis by simp
    qed
    moreover have "c # cs = (c # pre) @ t @ rest"
      using pre by simp
    ultimately show ?thesis by blast
  qed
qed

lemma substr_find_char:
  "substr s 0 (find_char s ch) = Inr (takeWhile (\<lambda>c. c \<noteq> ch) s)"
proof -
  have "(case find_char s ch of None \<Rightarrow> s | Some n \<Rightarrow> take n s) = takeWhile (\<lambda>c. c \<noteq> ch) s"
    by (induction s) (auto split: option.splits)
  then show ?thesis
    by (simp add: substr_def split: option.splits)
qed

lemma GetTableName_extract:
  "GetTableName s = Inr (extractTableName is_space s)"
proof (cases "string_find s ''create table''")
  case None
  then show ?thesis
    by (simp add: GetTableName_def extractTableName_def after_first_string_find)
next
  case (Some i)
  from string_find_bound [OF Some] have "substr s (i + length ''create table'') None
      = Inr (drop (i + length ''create table'') s)"
    by (simp add: substr_def)
  moreover have "first_token is_space xs = takeWhile (\<lambda>c. c \<noteq> CHR '' '') xs" for xs
    by (simp add: first_token_def is_space_def space_def)
  ultimately show ?thesis
    unfolding GetTableName_def extractTableName_def after_first_string_find Some Let_def
      compile_strip_pattern
    by (simp add: strip_replace substr_find_char)
qed

text \<open>
  C4 as stated (every whitespace character is trimmed and collapsed, a tab between the
  keyword and the identifier like a space) does not hold: a tab is neither trimmed nor
  the end of the token.
\<close>

theorem GetTableName_tab_counterexample:
  "GetTableName (''create table'' @ [CHR 0x09] @ ''Users (id int)'') = Inr (CHR 0x09 # ''Users'')
   \<and> extractTableName isspace (''create table'' @ [CHR 0x09] @ ''Users (id int)'') = ''Users''
   \<and> GetTableName (''create table'' @ [CHR 0x09] @ ''Users (id int)'')
       \<noteq> Inr (extractTableName isspace (''create table'' @ [CHR 0x09] @ ''Users (id int)''))"
  by code_simp

text \<open>
  C4, amended. For every statement: if the text does not contain \<^verbatim>\<open>create table\<close>,
  \<open>GetTableName\<close> returns the empty string; otherwise it takes the text after the first
  occurrence of \<^verbatim>\<open>create table\<close>, trims leading and trailing space characters,
  collapses every run of space characters inside to a single space, and returns what
  remains up to its first space. Only the space character counts: a tab or a newline is
  kept and does not end the token.
\<close>

theorem GetTableName_space_only:
  "GetTableName sql_statement = Inr (extractTableName is_space sql_statement)
   \<and> (\<not> contains sql_statement ''create table'' \<longrightarrow> GetTableName sql_statement = Inr [])
   \<and> (\<forall>rest. after_first ''create table'' sql_statement = Some rest \<longrightarrow>
          (\<exists>pre. sql_statement = pre @ ''create table'' @ rest
                 \<and> (\<forall>pre' post'. sql_statement = pre' @ ''create table'' @ post'
                        \<longrightarrow> length pre \<le> length pre')))"
proof -
  have "\<not> contains sql_statement ''create table'' \<longrightarrow> GetTableName sql_statement = Inr []"
    by (simp add: GetTableName_extract extractTableName_def after_first_None [symmetric])
  then show ?thesis
    using GetTableName_extract [of sql_statement]
      after_first_Some [of "''create table''" sql_statement]
    by blast
qed

theorem GetTableName_space_only_witness:
  "\<not> contains ''select * from Users'' ''create table''
   \<and> GetTableName ''select * from Users'' = Inr []
   \<and> after_first ''create table'' ''  create table   a   b  '' = Some ''   a   b  ''
   \<and> extractTableName is_space ''  create table   a   b  '' = ''a''
   \<and> GetTableName ''  create table   a   b  '' = Inr ''a''"
proof -
  have "string_find ''select * from Users'' ''create table'' = None"
    by code_simp
  then have n: "\<not> contains ''select * from Users'' ''create table''"
    using string_find_None by blast
  have a: "after_first ''create table'' ''  create table   a   b  '' = Some ''   a   b  ''"
    by code_simp
  have e: "extractTableName is_space ''  create table   a   b  '' = ''a''"
    by code_simp
  have g1: "GetTableName ''select * from Users'' = Inr []"
    using GetTableName_space_only [of "''select * from Users''"] n by blast
  have "GetTableName ''  create table   a   b  ''
          = Inr (extractTableName is_space ''  create table   a   b  '')"
    using GetTableName_space_only [of "''  create table   a   b  ''"] by blast
  then have g2: "GetTableName ''  create table   a   b  '' = Inr ''a''"
    by (simp only: e)
  from n g1 a e g2 show ?thesis by blast
qed

section \<open>Multi-Valued Attribute\<close>

lemma compile_multi_valued:
  "regex_compile (''(id'' @ [backslash] @ ''s+varchar)|(id'' @ [backslash] @ ''s+text)|(id''
                    @ [backslash] @ ''s+regexp)'') =
     Inr (Alt (Seq (Grp 1 (lits ''id'' (Seq (Plus (Cls False [CI_space])) (lits ''varchar'' Eps)))) Eps)
         (Alt (Seq (Grp 2 (lits ''id'' (Seq (Plus (Cls False [CI_space])) (lits ''text'' Eps)))) Eps)
              (Seq (Grp 3 (lits ''id'' (Seq (Plus (Cls False [CI_space])) (lits ''regexp'' Eps)))) Eps)))"
  by code_simp

text \<open>
  C10. The Multi-Valued Attribute rule has no creation gate and does not ask for \<open>id\<close> to be
  a whole identifier: on every statement whose text contains \<open>id\<close>, whitespace and then
  \<open>varchar\<close>, \<open>text\<close> or \<open>regexp\<close> it emits exactly one diagnostic, of severity ERROR and
  category CREATION, and on every other statement it emits none.
\<close>

theorem multi_valued_attribute_fires_iff:
  "CheckMultiValuedAttribute state sql_statement =
     Inr (if multi_valued sql_statement
          then [\<lparr>diag_title = ''Multi-Valued Attribute'', diag_severity = LOG_LEVEL_ERROR,
                 diag_category = PATTERN_TYPE_CREATION,
                 diag_message = CheckMultiValuedAttribute_message,
                 diag_statement = sql_statement\<rparr>]
          else [])"
  unfolding CheckMultiValuedAttribute_def compile_multi_valued
  by (simp add: CheckPattern_def regex_search_Alt regex_search_word_gap_word multi_valued_def)

theorem multi_valued_attribute_fires_iff_witness:
  "multi_valued ''select userid varchar from t''
   \<and> CheckMultiValuedAttribute all_enabled ''select userid varchar from t'' =
       Inr [\<lparr>diag_title = ''Multi-Valued Attribute'', diag_severity = LOG_LEVEL_ERROR,
             diag_category = PATTERN_TYPE_CREATION,
             diag_message = CheckMultiValuedAttribute_message,
             diag_statement = ''select userid varchar from t''\<rparr>]"
proof -
  have "''select userid varchar from t'' = ''select user'' @ (''id'' @ '' '' @ ''varchar'') @ '' from t''"
    by simp
  then have "contains ''select userid varchar from t'' (''id'' @ '' '' @ ''varchar'')"
    unfolding contains_def by blast
  moreover have "'' '' \<noteq> [] \<and> (\<forall>c \<in> set '' ''. isspace c)"
    by (simp add: isspace_def)
  ultimately have "contains_spaced ''select userid varchar from t'' ''id'' ''varchar''"
    unfolding contains_spaced_def by blast
  then have mv: "multi_valued ''select userid varchar from t''"
    by (simp add: multi_valued_def)
  from multi_valued_attribute_fires_iff [of all_enabled "''select userid varchar from t''"] mv
  show ?thesis by simp
qed

section \<open>Recursive Dependency\<close>

lemma scan_plain:
  "\<not> regex_special c \<Longrightarrow> scan (c # cs) = cons_token (TChar c) (scan cs)"
  by (simp add: regex_special_def)

lemma scan_plain_word:
  assumes "\<forall>c \<in> set w. \<not> regex_special c" and "scan cs = Inr ts"
  shows "scan (w @ cs) = Inr (map TChar w @ ts)"
  using assms(1)
proof (induction w)
  case Nil
  then show ?case by (simp add: assms(2))
next
  case (Cons c w)
  then have "scan ((c # w) @ cs) = cons_token (TChar c) (scan (w @ cs))"
    using scan_plain [of c "w @ cs"] by simp
  with Cons show ?case by (simp add: cons_token_def)
qed

lemma parse_chars:
  "parse ((k, alts, cur) # stk) n (map TChar w @ ts) =
     parse ((k, alts, cur @ map Chr w) # stk) n ts"
  by (induction w arbitrary: cur) simp_all

lemma not_lazy_before_chars:
  "(case map TChar w @ TClose # ts of TQuant QOpt # ts' \<Rightarrow> True | _ \<Rightarrow> False) = False"
  by (cases w) simp_all

lemma lits_foldr: "foldr Seq (map Chr w) k = lits w k"
  by (simp add: lits_def foldr_map comp_def)

lemma compile_references:
  assumes "\<forall>c \<in> set name. \<not> regex_special c"
  shows "regex_compile (''(references'' @ [backslash] @ ''s+'' @ name @ '')'') =
           Inr (Seq (Grp 1 (lits ''references''
                  (Seq (Plus (Cls False [CI_space])) (lits name Eps)))) Eps)"
proof -
  have close: "scan '')'' = Inr [TClose]"
    by (simp add: cons_token_def backslash_def)
  have "scan (''(references'' @ [backslash] @ ''s+'' @ name @ '')'') =
          Inr (TOpen # map TChar ''references''
               @ [TClass False [CI_space], TQuant QPlus] @ map TChar name @ [TClose])"
    by (simp add: scan_plain_word [OF assms close] cons_token_def backslash_def
        eat_escape_def)
  moreover have "parse [(FTop, [], [])] 1
            (TOpen # map TChar ''references''
               @ [TClass False [CI_space], TQuant QPlus] @ map TChar name @ [TClose]) =
          Inr (Seq (Grp 1 (lits ''references''
                  (Seq (Plus (Cls False [CI_space])) (lits name Eps)))) Eps)"
  proof -
    have "parse [(FTop, [], [])] 1
            (TOpen # map TChar ''references''
               @ [TClass False [CI_space], TQuant QPlus] @ map TChar name @ [TClose]) =
          parse [(FGroup 1, [], map Chr ''references'' @ [Plus (Cls False [CI_space])]),
                 (FTop, [], [])] 2 (map TChar name @ [TClose])"
      by (simp add: numeral_2_eq_2 not_lazy_before_chars)
    also have "\<dots> = parse [(FGroup 1, [],
                   (map Chr ''references'' @ [Plus (Cls False [CI_space])]) @ map Chr name),
                 (FTop, [], [])] 2 [TClose]"
      by (rule parse_chars)
    also have "\<dots> = Inr (Seq (Grp 1 (foldr Seq (map Chr ''references'')
                  (Seq (Plus (Cls False [CI_space])) (foldr Seq (map Chr name) Eps)))) Eps)"
      by (simp add: seq_of_def)
    finally show ?thesis by (simp only: lits_foldr)
  qed
  moreover have "\<not> has_backref (lits w k)" if "\<not> has_backref k" for w k
    using that by (induction w) (simp_all add: lits_def)
  then have "\<not> has_backref (Seq (Grp 1 (lits ''references''
                  (Seq (Plus (Cls False [CI_space])) (lits name Eps)))) Eps)"
    by simp
  ultimately show ?thesis by (simp only: regex_compile_def sum.case simp_thms if_False)
qed

lemma fires_on_plain_name:
  assumes "GetTableName s = Inr name" and "name \<noteq> []"
    and "\<forall>c \<in> set name. \<not> regex_special c"
  shows "CheckRecursiveDependency state s =
           Inr (if contains_spaced s ''references'' name then [recursive_dependency s] else [])"
  unfolding CheckRecursiveDependency_def assms(1) sum.case compile_references [OF assms(3)]
  using assms(2)
  by (simp add: CheckPattern_def regex_search_word_gap_word recursive_dependency_def)

lemma recursive_dependency_no_name:
  "GetTableName s = Inr [] \<Longrightarrow> CheckRecursiveDependency state s = Inr []"
  by (simp add: CheckRecursiveDependency_def)






lemma contains_spaced_Nil: "\<not> contains_spaced [] w1 w2"
  by (auto simp: contains_spaced_def contains_def)

lemma contains_spaced_Cons:
  "contains_spaced (c # cs) w1 w2 = (starts_spaced (c # cs) w1 w2 \<or> contains_spaced cs w1 w2)"
proof -
  have "(take (length (w1 @ ws @ w2)) (c # cs) = w1 @ ws @ w2)
          = (\<exists>post. c # cs = w1 @ ws @ w2 @ post)" for ws
    using take_eq_iff [of "w1 @ ws @ w2" "c # cs"] by simp
  then show ?thesis
    unfolding contains_spaced_def starts_spaced_def contains_Cons by blast
qed

lemma starts_spaced_Cons_Cons:
  "starts_spaced (c # cs) (d # w1) w2 = (c = d \<and> starts_spaced cs w1 w2)"
  by (auto simp: starts_spaced_def)

lemma starts_spaced_Nil: "\<not> starts_spaced [] w1 w2"
  by (auto simp: starts_spaced_def)

lemma no_space_not_spaced:
  assumes "\<forall>c \<in> set s. \<not> isspace c"
  shows "\<not> contains_spaced s w1 w2"
proof
  assume "contains_spaced s w1 w2"
  then obtain ws pre post where "ws \<noteq> []" and sp: "\<forall>c \<in> set ws. isspace c"
    and "s = pre @ (w1 @ ws @ w2) @ post"
    by (auto simp: contains_spaced_def contains_def)
  then have "hd ws \<in> set s" and "hd ws \<in> set ws"
    by (cases ws; simp)+
  with sp assms show False by blast
qed

lemma isword_not_space: "isword c \<Longrightarrow> \<not> isspace c"
  by (auto simp: isword_def isspace_def)

lemma spaced_name_here:
  assumes "\<forall>c \<in> set T. isword c" and "CHR '')'' \<notin> set name" and "name \<noteq> []"
  shows "starts_spaced (CHR '' '' # T @ '')'') [] name = (take (length name) T = name)"
proof
  assume "take (length name) T = name"
  then have "CHR '' '' # T @ '')'' = [] @ '' '' @ name @ (drop (length name) T @ '')'')"
    by (metis append_Cons append_Nil append_assoc append_take_drop_id)
  moreover have "\<forall>c \<in> set '' ''. isspace c"
    by (simp add: isspace_def)
  ultimately show "starts_spaced (CHR '' '' # T @ '')'') [] name"
    unfolding starts_spaced_def by blast
next
  assume "starts_spaced (CHR '' '' # T @ '')'') [] name"
  then obtain ws post where ws: "ws \<noteq> []" "\<forall>c \<in> set ws. isspace c"
    and eq: "CHR '' '' # T @ '')'' = ws @ name @ post"
    by (auto simp: starts_spaced_def)
  from ws(1) obtain w ws' where w: "ws = w # ws'"
    by (cases ws) auto
  with eq have eq': "T @ '')'' = ws' @ name @ post"
    by simp
  have "ws' = []"
  proof (rule ccontr)
    assume "ws' \<noteq> []"
    then obtain h hs where h: "ws' = h # hs"
      by (cases ws') auto
    with eq' have "h \<in> set (T @ '')'')"
      by (metis append_Cons list.set_intros(1))
    then have "\<not> isspace h"
      using assms(1) isword_not_space by (auto simp: isspace_def)
    moreover have "isspace h"
      using ws(2) w h by simp
    ultimately show False by blast
  qed
  with eq' have t: "T @ '')'' = name @ post"
    by simp
  show "take (length name) T = name"
  proof (cases "length name \<le> length T")
    case True
    then have "take (length name) T = take (length name) (T @ '')'')"
      by simp
    also have "\<dots> = name"
      by (simp add: t)
    finally show ?thesis .
  next
    case False
    then have lt: "length T < length name" by simp
    have "(T @ '')'') ! length T = CHR '')''"
      by simp
    moreover have "(name @ post) ! length T = name ! length T"
      using lt by (simp add: nth_append)
    moreover have "name ! length T \<in> set name"
      using lt by simp
    ultimately show ?thesis
      using t assms(2) by metis
  qed
qed

lemma references_other_table:
  assumes "\<forall>c \<in> set T. isword c"
  shows "contains_spaced (''create table Category (id int, parent_id int, references '' @ T @ '')'')
           ''references'' ''Category'' = (\<exists>suffix. T = ''Category'' @ suffix)"
proof -
  have "\<forall>c \<in> set (T @ '')''). \<not> isspace c"
    using assms isword_not_space by (auto simp: isspace_def)
  then have tail: "\<not> contains_spaced (T @ '')'') ''references'' ''Category''"
    by (rule no_space_not_spaced)
  have here: "starts_spaced (CHR '' '' # T @ '')'') [] ''Category''
                = (\<exists>suffix. T = ''Category'' @ suffix)"
    unfolding take_eq_iff [symmetric]
    by (rule spaced_name_here [OF assms]) simp_all
  show ?thesis
    by (simp add: contains_spaced_Cons starts_spaced_Cons_Cons tail here)
qed

lemma GetTableName_other_table:
  "GetTableName (''create table Category (id int, parent_id int, references '' @ T @ '')'')
     = Inr ''Category''"
  by (simp add: GetTableName_extract extractTableName_def trim_def first_token_def
      is_space_def space_def)

lemma fires_on_every_longer_name:
  assumes "\<forall>c \<in> set other. isword c"
  shows "CheckRecursiveDependency state
           (''create table Category (id int, parent_id int, references '' @ other @ '')'')
         = Inr (if \<exists>suffix. other = ''Category'' @ suffix
                then [recursive_dependency
                        (''create table Category (id int, parent_id int, references ''
                           @ other @ '')'')]
                else [])"
proof -
  have plain: "\<forall>c \<in> set ''Category''. \<not> regex_special c"
    by (simp add: regex_special_def backslash_def)
  have "CheckRecursiveDependency state
          (''create table Category (id int, parent_id int, references '' @ other @ '')'')
        = Inr (if contains_spaced
                    (''create table Category (id int, parent_id int, references ''
                       @ other @ '')'')
                    ''references'' ''Category''
               then [recursive_dependency
                       (''create table Category (id int, parent_id int, references ''
                          @ other @ '')'')]
               else [])"
    by (rule fires_on_plain_name [OF GetTableName_other_table _ plain]) simp
  then show ?thesis
    by (simp only: references_other_table [OF assms])
qed

text \<open>
  C2. With an empty table name the Recursive Dependency rule emits nothing, also when
  \<^verbatim>\<open>create table\<close> is present; on
  \<^verbatim>\<open>create table Category (id int, parent_id int, references Category)\<close> it emits exactly
  one diagnostic, of severity ERROR; when the references clause names \<open>Product\<close> instead,
  it emits none. But when the references clause names \<open>CategoryItems\<close>, a different table,
  the rule reports a recursive dependency all the same, and so it does for a table
  \<open>orders\<close> that references \<open>orders_items\<close>: the pattern ends with the table name and does
  not ask for the name to end there.
\<close>

theorem recursive_dependency_other_table_fires:
  "GetTableName ''create table  '' = Inr []
   \<and> CheckRecursiveDependency all_enabled ''create table  '' = Inr []
   \<and> CheckRecursiveDependency all_enabled
         ''create table Category (id int, parent_id int, references Category)''
       = Inr [\<lparr>diag_title = ''Recursive Dependency'', diag_severity = LOG_LEVEL_ERROR,
               diag_category = PATTERN_TYPE_CREATION,
               diag_message = CheckRecursiveDependency_message,
               diag_statement =
                 ''create table Category (id int, parent_id int, references Category)''\<rparr>]
   \<and> CheckRecursiveDependency all_enabled
         ''create table Category (id int, parent_id int, references Product)'' = Inr []
   \<and> ''CategoryItems'' \<noteq> ''Category''
   \<and> GetTableName ''create table Category (id int, parent_id int, references CategoryItems)''
       = Inr ''Category''
   \<and> CheckRecursiveDependency all_enabled
         ''create table Category (id int, parent_id int, references CategoryItems)''
       = Inr [\<lparr>diag_title = ''Recursive Dependency'', diag_severity = LOG_LEVEL_ERROR,
               diag_category = PATTERN_TYPE_CREATION,
               diag_message = CheckRecursiveDependency_message,
               diag_statement =
                 ''create table Category (id int, parent_id int, references CategoryItems)''\<rparr>]
   \<and> ''orders_items'' \<noteq> ''orders''
   \<and> GetTableName ''create table orders (id int, references orders_items)'' = Inr ''orders''
   \<and> CheckRecursiveDependency all_enabled
         ''create table orders (id int, references orders_items)''
       = Inr [\<lparr>diag_title = ''Recursive Dependency'', diag_severity = LOG_LEVEL_ERROR,
               diag_category = PATTERN_TYPE_CREATION,
               diag_message = CheckRecursiveDependency_message,
               diag_statement = ''create table orders (id int, references orders_items)''\<rparr>]"
  by code_simp

section \<open>The examples of the specification\<close>

text \<open>
  C3. \<open>GetTableName\<close> returns \<open>Users\<close> on \<^verbatim>\<open>create table Users (id int, name varchar(50))\<close>.
  On the unspaced \<^verbatim>\<open>create table Users(id int, name varchar(50))\<close> it returns \<open>Users(id\<close>, the
  text up to the first space: the parenthesis does not end the name. With that name the
  pattern of the Recursive Dependency rule has an unclosed parenthesis, and building it
  throws.
\<close>

theorem GetTableName_Users:
  "GetTableName ''create table Users (id int, name varchar(50))'' = Inr ''Users''
   \<and> GetTableName ''create table Users(id int, name varchar(50))'' = Inr ''Users(id''
   \<and> CheckRecursiveDependency all_enabled ''create table Users(id int, name varchar(50))''
       = Inl regex_error"
  by code_simp

text \<open>
  C5. With every rule enabled, \<^verbatim>\<open>select * from Users\<close> yields exactly one diagnostic, titled
  \<open>SELECT *\<close>, of severity ERROR.
\<close>

theorem evaluate_select_star:
  "evaluate all_enabled ''select * from Users'' =
     Inr [\<lparr>diag_title = ''SELECT *'', diag_severity = LOG_LEVEL_ERROR,
           diag_category = PATTERN_TYPE_QUERY, diag_message = CheckSelectStar_message,
           diag_statement = ''select * from Users''\<rparr>]"
  by code_simp

text \<open>
  C6. \<^verbatim>\<open>create table Users (id int, name varchar(50))\<close> yields exactly one Primary Key Exists
  diagnostic of severity WARN (there is no \<open>primary key\<close> in the text) and exactly one
  Generic Primary Key diagnostic of severity ERROR (a column is named \<open>id\<close>); the third
  diagnostic is that of Foreign Key Exists.
\<close>

theorem evaluate_create_users_id:
  "evaluate all_enabled ''create table Users (id int, name varchar(50))'' =
     Inr [\<lparr>diag_title = ''Primary Key Exists'', diag_severity = LOG_LEVEL_WARN,
           diag_category = PATTERN_TYPE_CREATION, diag_message = CheckPrimaryKeyExists_message,
           diag_statement = ''create table Users (id int, name varchar(50))''\<rparr>,
          \<lparr>diag_title = ''Generic Primary Key'', diag_severity = LOG_LEVEL_ERROR,
           diag_category = PATTERN_TYPE_CREATION, diag_message = CheckGenericPrimaryKey_message,
           diag_statement = ''create table Users (id int, name varchar(50))''\<rparr>,
          \<lparr>diag_title = ''Foreign Key Exists'', diag_severity = LOG_LEVEL_WARN,
           diag_category = PATTERN_TYPE_CREATION, diag_message = CheckForeignKeyExists_message,
           diag_statement = ''create table Users (id int, name varchar(50))''\<rparr>]"
  by code_simp

text \<open>
  C7. \<^verbatim>\<open>create table Users (user_id int primary key, name varchar(50))\<close> yields no Primary
  Key Exists diagnostic (the text contains \<open>primary key\<close>) and no Generic Primary Key
  diagnostic (\<open>user_id\<close> is not a column named \<open>id\<close>): the only diagnostic is that of Foreign
  Key Exists.
\<close>

theorem evaluate_create_users_user_id:
  "evaluate all_enabled ''create table Users (user_id int primary key, name varchar(50))'' =
     Inr [\<lparr>diag_title = ''Foreign Key Exists'', diag_severity = LOG_LEVEL_WARN,
           diag_category = PATTERN_TYPE_CREATION, diag_message = CheckForeignKeyExists_message,
           diag_statement = ''create table Users (user_id int primary key, name varchar(50))''\<rparr>]
   \<and> CheckPrimaryKeyExists all_enabled
         ''create table Users (user_id int primary key, name varchar(50))'' = Inr []
   \<and> CheckGenericPrimaryKey all_enabled
         ''create table Users (user_id int primary key, name varchar(50))'' = Inr []"
  by code_simp

end
